theory Spec2Isabelle
  imports Main "HOL-Library.Word" "HOL-Library.Extended_Nat" "HOL-Library.AList"
begin

section \<open>Data model\<close>

text \<open>
  A JavaScript string is a sequence of 16-bit code units; \<open>length\<close>, indexing,
  \<open>slice\<close> and the relational operators all work on code units. \<open>js\<close> writes a
  literal.
\<close>

type_synonym jsstring = "16 word list"

definition js :: "string \<Rightarrow> jsstring" where
  "js s = map of_char s"

text \<open>\<^verbatim>\<open>s.slice(a, b)\<close> for non-negative \<open>a\<close>, \<open>b\<close> (both are clamped to the length).\<close>

definition slice :: "jsstring \<Rightarrow> nat \<Rightarrow> nat \<Rightarrow> jsstring" where
  "slice s a b = take (b - a) (drop a s)"

text \<open>
  \<^verbatim>\<open>a < b\<close> on two strings compares code units lexicographically; \<^verbatim>\<open>a >= b\<close> is its
  negation, and \<^verbatim>\<open>a <= b\<close> is the negation of \<^verbatim>\<open>b < a\<close>.
\<close>

fun js_less :: "jsstring \<Rightarrow> jsstring \<Rightarrow> bool" where
  "js_less [] [] = False"
| "js_less [] (y # ys) = True"
| "js_less (x # xs) [] = False"
| "js_less (x # xs) (y # ys) = (x < y \<or> (x = y \<and> js_less xs ys))"

text \<open>
  The compiled grammar graph: the object literals built by \<^verbatim>\<open>parseElement\<close>, tagged by
  their \<^verbatim>\<open>type\<close> field. \<open>max\<close> of a repetition is a number or \<^verbatim>\<open>Infinity\<close>. The bounds of
  a character range are what the destructuring \<^verbatim>\<open>[start, , end] = text\<close> yields: strings,
  the second of which may be \<^verbatim>\<open>undefined\<close>.
\<close>

datatype expression =
    Alternation "expression list"
  | Concatenation "expression list"
  | Repetition nat enat expression
  | Optional expression
  | Terminal jsstring
  | CharacterRange jsstring "jsstring option"
  | NonTerminal jsstring
  | Empty

text \<open>The parse tree node \<^verbatim>\<open>{type, value, start, end, children}\<close>.\<close>

datatype parse_node =
  Node (node_type: jsstring) (node_value: jsstring) (node_start: nat) (node_end: nat)
    (node_children: "parse_node list")

text \<open>
  What \<^verbatim>\<open>parseExpression\<close> and \<^verbatim>\<open>parseRule\<close> return on success: an object with a
  \<^verbatim>\<open>position\<close> and either a \<^verbatim>\<open>node\<close> or a \<^verbatim>\<open>children\<close> field; an absent field is
  \<open>None\<close>. The \<^verbatim>\<open>null\<close> of a failed match is the \<open>None\<close> of \<open>result option\<close>.
\<close>

record result =
  node :: "parse_node option"
  children :: "parse_node list option"
  position :: nat

text \<open>The errors thrown, by their message.\<close>

datatype error =
    NoValidRules \<comment> \<open>\<^verbatim>\<open>No valid grammar rules found\<close>\<close>
  | NoStartRule \<comment> \<open>\<^verbatim>\<open>No start rule defined\<close>\<close>
  | ParseFailedAtStart \<comment> \<open>\<^verbatim>\<open>Parse failed at beginning of input\<close>\<close>
  | IncompleteParse jsstring nat \<comment> \<open>\<^verbatim>\<open>Parse incomplete. Remaining: "..." at position ...\<close>\<close>
  | UnknownRule jsstring \<comment> \<open>\<^verbatim>\<open>Unknown rule: ...\<close>\<close>

text \<open>
  A call of the matcher returns, throws, or does neither: the recursion has no
  depth guard and the repetition loop no progress check. The model takes a budget
  \<open>n\<close> that bounds both the nesting depth of \<^verbatim>\<open>parseExpression\<close> calls and the number
  of iterations of each \<^verbatim>\<open>while\<close> loop; \<open>Timeout\<close> says the budget did not suffice.
  The call terminates iff some budget gives a result other than \<open>Timeout\<close>.
\<close>

datatype 'a outcome = Timeout | Threw error | Returned 'a

text \<open>
  The state of an \<^verbatim>\<open>EBNFParser\<close> after its constructor: \<^verbatim>\<open>rules\<close> is a \<^verbatim>\<open>Map\<close>, which
  keeps its keys in insertion order, \<^verbatim>\<open>startRule\<close> is \<^verbatim>\<open>null\<close> or a rule name.
\<close>

record parser =
  grammarText :: jsstring
  rules :: "(jsstring \<times> expression) list"
  startRule :: "jsstring option"

section \<open>The grammar compiler: strings and regular expressions\<close>

type_synonym jschar = "16 word"

text \<open>
  \<^verbatim>\<open>\s\<close> in a regular expression and the characters \<^verbatim>\<open>trim()\<close> strips: white space
  and line terminators. \<^verbatim>\<open>.\<close> matches every code unit but a line terminator.
\<close>

definition is_line_terminator :: "jschar \<Rightarrow> bool" where
  "is_line_terminator c \<longleftrightarrow> c = 0x0A \<or> c = 0x0D \<or> c = 0x2028 \<or> c = 0x2029"

definition is_space :: "jschar \<Rightarrow> bool" where
  "is_space c \<longleftrightarrow>
     c = 0x09 \<or> c = 0x0A \<or> c = 0x0B \<or> c = 0x0C \<or> c = 0x0D \<or> c = 0x20 \<or> c = 0xA0 \<or>
     c = 0x1680 \<or> (0x2000 \<le> c \<and> c \<le> 0x200A) \<or> c = 0x2028 \<or> c = 0x2029 \<or> c = 0x202F \<or>
     c = 0x205F \<or> c = 0x3000 \<or> c = 0xFEFF"

definition is_digit :: "jschar \<Rightarrow> bool" where
  "is_digit c \<longleftrightarrow> 0x30 \<le> c \<and> c \<le> 0x39"

definition is_ident_start :: "jschar \<Rightarrow> bool" where
  "is_ident_start c \<longleftrightarrow> (0x61 \<le> c \<and> c \<le> 0x7A) \<or> (0x41 \<le> c \<and> c \<le> 0x5A) \<or> c = 0x5F"

definition is_ident_char :: "jschar \<Rightarrow> bool" where
  "is_ident_char c \<longleftrightarrow> is_ident_start c \<or> is_digit c"

definition trim :: "jsstring \<Rightarrow> jsstring" where
  "trim s = rev (dropWhile is_space (rev (dropWhile is_space s)))"

definition startsWith :: "jsstring \<Rightarrow> jschar \<Rightarrow> bool" where
  "startsWith s c \<longleftrightarrow> (case s of [] \<Rightarrow> False | x # _ \<Rightarrow> x = c)"

definition endsWith :: "jsstring \<Rightarrow> jschar \<Rightarrow> bool" where
  "endsWith s c \<longleftrightarrow> s \<noteq> [] \<and> last s = c"

text \<open>\<^verbatim>\<open>text.split('\n')\<close>.\<close>

primrec split_lines :: "jsstring \<Rightarrow> jsstring list" where
  "split_lines [] = [[]]"
| "split_lines (c # cs) =
     (if c = 0x0A then [] # split_lines cs
      else (case split_lines cs of [] \<Rightarrow> [[c]] | l # ls \<Rightarrow> (c # l) # ls))"

text \<open>
  \<^verbatim>\<open>line.replace(/\(\*.*?\*\)/g, '')\<close>. \<open>comment_end s\<close> is what follows the first
  \<^verbatim>\<open>*)\<close> of \<open>s\<close>, if no line terminator comes before it: the lazy \<^verbatim>\<open>.*?\<close> stops at the
  first \<^verbatim>\<open>*)\<close> and cannot cross a line terminator. Matches are removed from left to
  right; where none starts, the character is kept.
\<close>

fun comment_end :: "jsstring \<Rightarrow> jsstring option" where
  "comment_end [] = None"
| "comment_end [c] = None"
| "comment_end (c # d # rest) =
     (if c = 0x2A \<and> d = 0x29 then Some rest
      else if is_line_terminator c then None
      else comment_end (d # rest))"

lemma comment_end_length: "comment_end s = Some r \<Longrightarrow> length r < length s"
  by (induction s arbitrary: r rule: comment_end.induct) (auto split: if_splits)

function strip_block_comments :: "jsstring \<Rightarrow> jsstring" where
  "strip_block_comments [] = []"
| "strip_block_comments [c] = [c]"
| "strip_block_comments (c # d # rest) =
     (if c = 0x28 \<and> d = 0x2A then
        (case comment_end rest of
           Some after \<Rightarrow> strip_block_comments after
         | None \<Rightarrow> c # strip_block_comments (d # rest))
      else c # strip_block_comments (d # rest))"
  by pat_completeness auto
termination
  by (relation "measure length") (auto dest: comment_end_length)

text \<open>
  \<^verbatim>\<open>line.replace(/\/\/.*$/, '')\<close> and \<^verbatim>\<open>line.replace(/#.*$/, '')\<close>: the first place
  where the marker stands and no line terminator follows up to the end of the
  string; the string is cut there.
\<close>

fun strip_slash_comment :: "jsstring \<Rightarrow> jsstring" where
  "strip_slash_comment [] = []"
| "strip_slash_comment [c] = [c]"
| "strip_slash_comment (c # d # rest) =
     (if c = 0x2F \<and> d = 0x2F \<and> \<not> list_ex is_line_terminator rest then []
      else c # strip_slash_comment (d # rest))"

fun strip_hash_comment :: "jsstring \<Rightarrow> jsstring" where
  "strip_hash_comment [] = []"
| "strip_hash_comment (c # rest) =
     (if c = 0x23 \<and> \<not> list_ex is_line_terminator rest then []
      else c # strip_hash_comment rest)"

text \<open>The \<^verbatim>\<open>lines\<close> of \<^verbatim>\<open>parseGrammar\<close>: comments removed, trimmed, empty lines dropped.\<close>

definition clean_line :: "jsstring \<Rightarrow> jsstring" where
  "clean_line line = trim (strip_hash_comment (strip_slash_comment (strip_block_comments line)))"

definition grammar_lines :: "jsstring \<Rightarrow> jsstring list" where
  "grammar_lines text = filter (\<lambda>line. length line > 0) (map clean_line (split_lines text))"

text \<open>
  \<^verbatim>\<open>line.match(/^([a-zA-Z_][a-zA-Z0-9_]*)\s*(::?=|\u2192)\s*(.+)$/)\<close>: the rule name and
  the definition. The name is the longest identifier prefix; the operator is
  \<^verbatim>\<open>::=\<close>, \<^verbatim>\<open>:=\<close> or the arrow U+2192; the definition is what follows the white space
  after the operator, non-empty and free of line terminators (when only white space
  follows, \<^verbatim>\<open>\s*\<close> gives its last character back to \<^verbatim>\<open>.+\<close>).
\<close>

definition strip_operator :: "jsstring \<Rightarrow> jsstring option" where
  "strip_operator s =
     (case s of
        a # b # c # rest \<Rightarrow>
          if a = 0x3A \<and> b = 0x3A \<and> c = 0x3D then Some rest
          else if a = 0x3A \<and> b = 0x3D then Some (c # rest)
          else if a = 0x2192 then Some (b # c # rest)
          else None
      | [a, b] \<Rightarrow>
          if a = 0x3A \<and> b = 0x3D then Some []
          else if a = 0x2192 then Some [b]
          else None
      | [a] \<Rightarrow> if a = 0x2192 then Some [] else None
      | [] \<Rightarrow> None)"

definition rule_definition :: "jsstring \<Rightarrow> jsstring option" where
  "rule_definition s =
     (let rest = dropWhile is_space s in
      if rest \<noteq> [] then (if list_ex is_line_terminator rest then None else Some rest)
      else if s \<noteq> [] \<and> \<not> is_line_terminator (last s) then Some [last s]
      else None)"

definition ruleMatch :: "jsstring \<Rightarrow> (jsstring \<times> jsstring) option" where
  "ruleMatch line =
     (case line of
        [] \<Rightarrow> None
      | c # cs \<Rightarrow>
          if \<not> is_ident_start c then None
          else
            (case strip_operator (dropWhile is_space (dropWhile is_ident_char cs)) of
               None \<Rightarrow> None
             | Some after \<Rightarrow>
                 (case rule_definition after of
                    None \<Rightarrow> None
                  | Some definition \<Rightarrow> Some (c # takeWhile is_ident_char cs, definition))))"

section \<open>The grammar compiler: splitting a definition\<close>

text \<open>
  \<^verbatim>\<open>splitRespectingGroups(text, delimiter)\<close>: the loop over the characters with its
  variables \<^verbatim>\<open>parts\<close>, \<^verbatim>\<open>current\<close>, \<^verbatim>\<open>groupDepth\<close>, \<^verbatim>\<open>inQuotes\<close>, \<^verbatim>\<open>quoteChar\<close> (the
  empty string or one character), then the push of the last part.
\<close>

definition is_quote :: "jschar \<Rightarrow> bool" where
  "is_quote c \<longleftrightarrow> c = 0x22 \<or> c = 0x27"

definition is_open :: "jschar \<Rightarrow> bool" where
  "is_open c \<longleftrightarrow> c = 0x28 \<or> c = 0x5B \<or> c = 0x7B"

definition is_close :: "jschar \<Rightarrow> bool" where
  "is_close c \<longleftrightarrow> c = 0x29 \<or> c = 0x5D \<or> c = 0x7D"

fun split_loop ::
  "jschar \<Rightarrow> jsstring \<Rightarrow> jsstring list \<Rightarrow> jsstring \<Rightarrow> int \<Rightarrow> bool \<Rightarrow> jsstring \<Rightarrow> jsstring list"
where
  "split_loop delimiter [] parts current groupDepth inQuotes quoteChar =
     (if trim current \<noteq> [] then parts @ [trim current] else parts)"
| "split_loop delimiter (char # text) parts current groupDepth inQuotes quoteChar =
     (if \<not> inQuotes \<and> is_quote char then
        split_loop delimiter text parts (current @ [char]) groupDepth True [char]
      else if inQuotes \<and> [char] = quoteChar then
        split_loop delimiter text parts (current @ [char]) groupDepth False []
      else if inQuotes then
        split_loop delimiter text parts (current @ [char]) groupDepth inQuotes quoteChar
      else if is_open char then
        split_loop delimiter text parts (current @ [char]) (groupDepth + 1) inQuotes quoteChar
      else if is_close char then
        split_loop delimiter text parts (current @ [char]) (groupDepth - 1) inQuotes quoteChar
      else if char = delimiter \<and> groupDepth = 0 then
        split_loop delimiter text (parts @ [trim current]) [] groupDepth inQuotes quoteChar
      else
        split_loop delimiter text parts (current @ [char]) groupDepth inQuotes quoteChar)"

definition splitRespectingGroups :: "jsstring \<Rightarrow> jschar \<Rightarrow> jsstring list" where
  "splitRespectingGroups text delimiter = split_loop delimiter text [] [] 0 False []"

text \<open>
  \<^verbatim>\<open>tokenize(text)\<close>: the \<^verbatim>\<open>while\<close> loop with \<^verbatim>\<open>tokens\<close>, \<^verbatim>\<open>current\<close>, \<^verbatim>\<open>inQuotes\<close>,
  \<^verbatim>\<open>quoteChar\<close>, \<^verbatim>\<open>groupDepth\<close>, then the push of what is left. The test for an opening
  quote comes first, also inside a group.
\<close>

fun tokenize_loop ::
  "jsstring \<Rightarrow> jsstring list \<Rightarrow> jsstring \<Rightarrow> bool \<Rightarrow> jsstring \<Rightarrow> int \<Rightarrow> jsstring list"
where
  "tokenize_loop [] tokens current inQuotes quoteChar groupDepth =
     (if trim current \<noteq> [] then tokens @ [trim current] else tokens)"
| "tokenize_loop (char # text) tokens current inQuotes quoteChar groupDepth =
     (if \<not> inQuotes \<and> is_quote char then
        tokenize_loop text (if trim current \<noteq> [] then tokens @ [trim current] else tokens)
          [char] True [char] groupDepth
      else if inQuotes \<and> [char] = quoteChar then
        tokenize_loop text (tokens @ [current @ [char]]) [] False [] groupDepth
      else if inQuotes then
        tokenize_loop text tokens (current @ [char]) inQuotes quoteChar groupDepth
      else if is_open char then
        (if trim current \<noteq> [] \<and> groupDepth = 0 then
           tokenize_loop text (tokens @ [trim current]) [char] inQuotes quoteChar (groupDepth + 1)
         else
           tokenize_loop text tokens (current @ [char]) inQuotes quoteChar (groupDepth + 1))
      else if is_close char then
        (if groupDepth - 1 = 0 then
           tokenize_loop text (tokens @ [current @ [char]]) [] inQuotes quoteChar (groupDepth - 1)
         else
           tokenize_loop text tokens (current @ [char]) inQuotes quoteChar (groupDepth - 1))
      else if groupDepth > 0 then
        tokenize_loop text tokens (current @ [char]) inQuotes quoteChar groupDepth
      else if is_space char then
        (if trim current \<noteq> [] then
           tokenize_loop text (tokens @ [trim current]) [] inQuotes quoteChar groupDepth
         else
           tokenize_loop text tokens current inQuotes quoteChar groupDepth)
      else
        tokenize_loop text tokens (current @ [char]) inQuotes quoteChar groupDepth)"

definition tokenize :: "jsstring \<Rightarrow> jsstring list" where
  "tokenize text = tokenize_loop text [] [] False [] 0"

section \<open>The grammar compiler: elements\<close>

text \<open>
  \<^verbatim>\<open>parseInt\<close> of a string of decimal digits. The JavaScript value is a double: it
  is this number as long as the number is below \<open>2^53\<close>.
\<close>

definition parseInt :: "jsstring \<Rightarrow> nat" where
  "parseInt ds = foldl (\<lambda>n d. 10 * n + unat (d - 0x30)) 0 ds"

text \<open>
  \<^verbatim>\<open>text.match(/^(.+)\{(\d*),?(\d*)\}$/)\<close>: the groups \<open>(element, min, max)\<close>. The
  text ends with \<^verbatim>\<open>}\<close>; between the last \<^verbatim>\<open>{\<close> and it stand digits, an optional comma,
  digits (the first \<^verbatim>\<open>\d*\<close> is greedy: it takes all the leading digits); before the
  \<^verbatim>\<open>{\<close> stands at least one character and no line terminator.
\<close>

definition repetitionMatch :: "jsstring \<Rightarrow> (jsstring \<times> jsstring \<times> jsstring) option" where
  "repetitionMatch text =
     (if \<not> endsWith text 0x7D then None
      else
        (let body = rev (butlast text);
             inner = rev (takeWhile (\<lambda>c. c \<noteq> 0x7B) body);
             before = dropWhile (\<lambda>c. c \<noteq> 0x7B) body
         in case before of
              [] \<Rightarrow> None
            | _ # element_rev \<Rightarrow>
                (let element = rev element_rev;
                     mn = takeWhile is_digit inner;
                     after_mn = dropWhile is_digit inner;
                     mx = (case after_mn of [] \<Rightarrow> [] | c # rest \<Rightarrow> if c = 0x2C then rest else c # rest)
                 in if element \<noteq> [] \<and> \<not> list_ex is_line_terminator element \<and> list_all is_digit mx
                    then Some (element, mn, mx) else None)))"

text \<open>
  The destructuring \<^verbatim>\<open>[start, , end] = text\<close> iterates over code points: a high
  surrogate followed by a low one is one element of two code units.
\<close>

fun code_points :: "jsstring \<Rightarrow> jsstring list" where
  "code_points [] = []"
| "code_points [c] = [[c]]"
| "code_points (c # d # rest) =
     (if 0xD800 \<le> c \<and> c \<le> 0xDBFF \<and> 0xDC00 \<le> d \<and> d \<le> 0xDFFF
      then [c, d] # code_points rest
      else [c] # code_points (d # rest))"

definition character_range :: "jsstring \<Rightarrow> expression" where
  "character_range text =
     (case code_points text of
        start # _ # end' # _ \<Rightarrow> CharacterRange start (Some end')
      | start # _ \<Rightarrow> CharacterRange start None
      | [] \<Rightarrow> CharacterRange [] None)"

text \<open>\<^verbatim>\<open>/^[a-zA-Z_][a-zA-Z0-9_]*$/.test(text)\<close>.\<close>

definition is_identifier :: "jsstring \<Rightarrow> bool" where
  "is_identifier text \<longleftrightarrow>
     (case text of [] \<Rightarrow> False | c # cs \<Rightarrow> is_ident_start c \<and> list_all is_ident_char cs)"

text \<open>\<^verbatim>\<open>text.slice(1, -1)\<close>; \<^verbatim>\<open>text.slice(0, -1)\<close> is \<open>butlast\<close>.\<close>

definition inner_text :: "jsstring \<Rightarrow> jsstring" where
  "inner_text text = butlast (tl text)"

lemma length_trim: "length (trim s) \<le> length s"
proof -
  have "length (dropWhile is_space (rev (dropWhile is_space s))) \<le> length (rev (dropWhile is_space s))"
    by (rule length_dropWhile_le)
  also have "\<dots> \<le> length s" by (simp add: length_dropWhile_le)
  finally show ?thesis by (simp add: trim_def)
qed

lemma split_loop_length:
  "t \<in> set (split_loop d str parts current depth inq q) \<Longrightarrow>
   t \<in> set parts \<or> length t \<le> length current + length str"
proof (induction str arbitrary: parts current depth inq q)
  case Nil
  then show ?case using length_trim[of current] by (auto split: if_splits)
next
  case (Cons c str)
  have tr: "length (trim current) \<le> length current" by (rule length_trim)
  from Cons.prems show ?case
    by (auto split: if_splits dest!: Cons.IH simp: le_SucI tr trans_le_add1)
qed

lemma splitRespectingGroups_length:
  "t \<in> set (splitRespectingGroups str d) \<Longrightarrow> length t \<le> length str"
  using split_loop_length[of t d str "[]" "[]" 0 False "[]"]
  by (simp add: splitRespectingGroups_def)

lemma tokenize_loop_length:
  "t \<in> set (tokenize_loop str tokens current inq q depth) \<Longrightarrow>
   t \<in> set tokens \<or> length t \<le> length current + length str"
proof (induction str arbitrary: tokens current inq q depth)
  case Nil
  then show ?case using length_trim[of current] by (auto split: if_splits)
next
  case (Cons c str)
  have tr: "length (trim current) \<le> length current" by (rule length_trim)
  from Cons.prems show ?case
    by (auto split: if_splits dest!: Cons.IH simp: le_SucI tr trans_le_add1)
qed

lemma tokenize_length: "t \<in> set (tokenize str) \<Longrightarrow> length t \<le> length str"
  using tokenize_loop_length[of t str "[]" "[]" False "[]" 0]
  by (simp add: tokenize_def)

lemma repetitionMatch_length:
  assumes "repetitionMatch str = Some (element, mn, mx)"
  shows "length element < length str"
proof -
  from assms have ne: "str \<noteq> []" by (auto simp: repetitionMatch_def endsWith_def)
  let ?body = "rev (butlast str)"
  from assms obtain x where x: "dropWhile (\<lambda>c. c \<noteq> 0x7B) ?body = x # rev element"
    by (auto simp: repetitionMatch_def Let_def split: if_splits list.splits)
  have "length (dropWhile (\<lambda>c. c \<noteq> 0x7B) ?body) \<le> length ?body" by (rule length_dropWhile_le)
  with x have "Suc (length element) \<le> length (butlast str)" by simp
  with ne show ?thesis by simp
qed

lemma length_butlast_trim:
  assumes "endsWith (trim t0) c"
  shows "length (butlast (trim t0)) < length t0"
proof -
  from assms have "trim t0 \<noteq> []" by (simp add: endsWith_def)
  then have "length (butlast (trim t0)) < length (trim t0)"
    by (cases "trim t0" rule: rev_cases) auto
  then show ?thesis using length_trim[of t0] by (rule less_le_trans)
qed

lemma length_inner_text_trim:
  assumes "endsWith (trim t0) c"
  shows "3 * length (inner_text (trim t0)) + 2 < 3 * length t0"
proof -
  from assms have "trim t0 \<noteq> []" by (simp add: endsWith_def)
  then obtain n where n: "length (trim t0) = Suc n" by (cases "trim t0") auto
  then have "length (inner_text (trim t0)) = n - 1" by (simp add: inner_text_def)
  moreover from n length_trim[of t0] have "Suc n \<le> length t0" by simp
  ultimately show ?thesis by arith
qed

text \<open>
  \<^verbatim>\<open>parseAlternation\<close>, \<^verbatim>\<open>parseConcatenation\<close> and \<^verbatim>\<open>parseElement\<close>. They terminate:
  every part, token and group interior is no longer than the text it comes from,
  and \<^verbatim>\<open>parseElement\<close> strips at least one character before it recurses.
\<close>

function parseAlternation :: "jsstring \<Rightarrow> expression"
  and parseConcatenation :: "jsstring \<Rightarrow> expression"
  and parseElement :: "jsstring \<Rightarrow> expression"
where
  "parseAlternation text =
     (let alternatives = splitRespectingGroups text 0x7C in
      if length alternatives = 1 then parseConcatenation (alternatives ! 0)
      else Alternation (map parseConcatenation alternatives))"
| "parseConcatenation text =
     (let elements = tokenize text in
      if length elements = 1 then parseElement (elements ! 0)
      else Concatenation (map parseElement elements))"
| "parseElement text0 =
     (let text = trim text0 in
      if endsWith text 0x2A then Repetition 0 \<infinity> (parseElement (butlast text))
      else if endsWith text 0x2B then Repetition 1 \<infinity> (parseElement (butlast text))
      else if endsWith text 0x3F then Optional (parseElement (butlast text))
      else
        (case repetitionMatch text of
           Some (element, mn, mx) \<Rightarrow>
             Repetition
               (if mn \<noteq> [] then parseInt mn else 0)
               (if mx \<noteq> [] then enat (parseInt mx)
                else if mn \<noteq> [] \<and> 0x2C \<notin> set mx then enat (parseInt mn) else \<infinity>)
               (parseElement element)
         | None \<Rightarrow>
             if startsWith text 0x28 \<and> endsWith text 0x29 then parseAlternation (inner_text text)
             else if startsWith text 0x5B \<and> endsWith text 0x5D then
               Optional (parseAlternation (inner_text text))
             else if startsWith text 0x7B \<and> endsWith text 0x7D then
               Repetition 0 \<infinity> (parseAlternation (inner_text text))
             else if (startsWith text 0x22 \<and> endsWith text 0x22) \<or>
                     (startsWith text 0x27 \<and> endsWith text 0x27) then
               Terminal (inner_text text)
             else if 0x2D \<in> set text \<and> length text = 3 then character_range text
             else if text = js ''empty'' \<or> text = [0x3B5] \<or> text = js ''epsilon'' then Empty
             else if is_identifier text then NonTerminal text
             else Terminal text))"
  by pat_completeness auto
termination
proof (relation "measure (\<lambda>x. case x of
          Inl t \<Rightarrow> 3 * length t + 2
        | Inr (Inl t) \<Rightarrow> 3 * length t + 1
        | Inr (Inr t) \<Rightarrow> 3 * length t)", goal_cases)
  case 1
  then show ?case by simp
next
  case (2 str alts)
  then have "alts ! 0 \<in> set (splitRespectingGroups str 0x7C)" by simp
  from splitRespectingGroups_length[OF this] show ?case by simp
next
  case (3 str alts a)
  then have "a \<in> set (splitRespectingGroups str 0x7C)" by simp
  from splitRespectingGroups_length[OF this] show ?case by simp
next
  case (4 str els)
  then have "els ! 0 \<in> set (tokenize str)" by simp
  from tokenize_length[OF this] show ?case by simp
next
  case (5 str els e)
  then have "e \<in> set (tokenize str)" by simp
  from tokenize_length[OF this] show ?case by simp
next
  case (6 t0 t)
  then have "\<exists>c. endsWith (trim t0) c" by auto
  then show ?case using 6(1) by (auto dest: length_butlast_trim)
next
  case (7 t0 t)
  then have "\<exists>c. endsWith (trim t0) c" by auto
  then show ?case using 7(1) by (auto dest: length_butlast_trim)
next
  case (8 t0 t)
  then have "\<exists>c. endsWith (trim t0) c" by auto
  then show ?case using 8(1) by (auto dest: length_butlast_trim)
next
  case (9 t0 t)
  then have "endsWith (trim t0) 0x29" by auto
  then show ?case using 9(1) by (auto dest: length_inner_text_trim)
next
  case (10 t0 t)
  then have "endsWith (trim t0) 0x5D" by auto
  then show ?case using 10(1) by (auto dest: length_inner_text_trim)
next
  case (11 t0 t)
  then have "endsWith (trim t0) 0x7D" by auto
  then show ?case using 11(1) by (auto dest: length_inner_text_trim)
next
  case (12 t0 t m el p mn mx)
  then have "repetitionMatch (trim t0) = Some (el, mn, mx)" by simp
  from repetitionMatch_length[OF this] length_trim[of t0] show ?case by simp
qed

declare parseAlternation.simps [simp del] parseConcatenation.simps [simp del]
  parseElement.simps [simp del]

section \<open>The grammar compiler: rules\<close>

definition parseRuleDefinition :: "jsstring \<Rightarrow> expression" where
  "parseRuleDefinition definition = parseAlternation definition"

text \<open>
  The body of the loop of \<^verbatim>\<open>parseGrammar\<close> for one line. \<^verbatim>\<open>!this.startRule\<close> holds for
  \<^verbatim>\<open>null\<close> and for the empty string; \<^verbatim>\<open>rules.set\<close> replaces the value of a key the map
  has, at its place, and appends a new key.
\<close>

definition register_rule :: "parser \<Rightarrow> jsstring \<Rightarrow> parser" where
  "register_rule this line =
     (case ruleMatch line of
        None \<Rightarrow> this
      | Some (ruleName, definition) \<Rightarrow>
          this\<lparr>startRule :=
                 (case startRule this of
                    None \<Rightarrow> Some ruleName
                  | Some s \<Rightarrow> if s = [] then Some ruleName else Some s),
               rules := AList.update ruleName (parseRuleDefinition definition) (rules this)\<rparr>)"

definition parseGrammar :: "parser \<Rightarrow> error + parser" where
  "parseGrammar this =
     (let this' = foldl register_rule this (grammar_lines (grammarText this)) in
      if length (rules this') = 0 then Inl NoValidRules else Inr this')"

text \<open>\<^verbatim>\<open>new EBNFParser(grammarText)\<close>: the parser, or the error the constructor throws.\<close>

definition EBNFParser :: "jsstring \<Rightarrow> error + parser" where
  "EBNFParser text = parseGrammar \<lparr>grammarText = text, rules = [], startRule = None\<rparr>"

section \<open>The match engine\<close>

text \<open>
  \<^verbatim>\<open>if (result.node) children.push(result.node);
  if (result.children) children.push(...result.children);\<close>
\<close>

definition pushed :: "result \<Rightarrow> parse_node list" where
  "pushed r =
     (case node r of None \<Rightarrow> [] | Some nd \<Rightarrow> [nd]) @
     (case children r of None \<Rightarrow> [] | Some cs \<Rightarrow> cs)"

text \<open>
  The loops of \<^verbatim>\<open>parseExpression\<close>; \<open>pe\<close> stands for the recursive call
  \<^verbatim>\<open>this.parseExpression(input, \<cdot>, \<cdot>)\<close> at the remaining budget.
\<close>

fun alternation_loop ::
  "(expression \<Rightarrow> result option outcome) \<Rightarrow> expression list \<Rightarrow> result option outcome"
where
  "alternation_loop pe [] = Returned None"
| "alternation_loop pe (alternative # rest) =
     (case pe alternative of
        Timeout \<Rightarrow> Timeout
      | Threw e \<Rightarrow> Threw e
      | Returned None \<Rightarrow> alternation_loop pe rest
      | Returned (Some r) \<Rightarrow> Returned (Some r))"

fun concatenation_loop ::
  "(nat \<Rightarrow> expression \<Rightarrow> result option outcome) \<Rightarrow> expression list \<Rightarrow> nat \<Rightarrow>
   parse_node list \<Rightarrow> result option outcome"
where
  "concatenation_loop pe [] currentPos chn =
     Returned (Some \<lparr>node = None, children = Some chn, position = currentPos\<rparr>)"
| "concatenation_loop pe (element # rest) currentPos chn =
     (case pe currentPos element of
        Timeout \<Rightarrow> Timeout
      | Threw e \<Rightarrow> Threw e
      | Returned None \<Rightarrow> Returned None
      | Returned (Some r) \<Rightarrow> concatenation_loop pe rest (position r) (chn @ pushed r))"

text \<open>
  \<^verbatim>\<open>while (count < expression.max) { ... }\<close>: the first argument is the iteration
  budget; the loop returns \<open>(repChildren, repPos, count)\<close> as they are at its exit.
\<close>

fun repetition_loop ::
  "nat \<Rightarrow> (nat \<Rightarrow> result option outcome) \<Rightarrow> enat \<Rightarrow> parse_node list \<Rightarrow> nat \<Rightarrow> nat \<Rightarrow>
   (parse_node list \<times> nat \<times> nat) outcome"
where
  "repetition_loop 0 pe mx repChildren repPos count =
     (if enat count < mx then Timeout else Returned (repChildren, repPos, count))"
| "repetition_loop (Suc k) pe mx repChildren repPos count =
     (if enat count < mx then
        (case pe repPos of
           Timeout \<Rightarrow> Timeout
         | Threw e \<Rightarrow> Threw e
         | Returned None \<Rightarrow> Returned (repChildren, repPos, count)
         | Returned (Some r) \<Rightarrow>
             repetition_loop k pe mx (repChildren @ pushed r) (position r) (Suc count))
      else Returned (repChildren, repPos, count))"

text \<open>\<^verbatim>\<open>parseRule\<close>, with the call of \<^verbatim>\<open>parseExpression\<close> it makes as \<open>pe\<close>.\<close>

definition parseRule_body ::
  "(nat \<Rightarrow> expression \<Rightarrow> result option outcome) \<Rightarrow> parser \<Rightarrow> jsstring \<Rightarrow> nat \<Rightarrow> jsstring \<Rightarrow>
   result option outcome"
where
  "parseRule_body pe this input pos ruleName =
     (case map_of (rules this) ruleName of
        None \<Rightarrow> Threw (UnknownRule ruleName)
      | Some rule \<Rightarrow>
          (case pe pos rule of
             Timeout \<Rightarrow> Timeout
           | Threw e \<Rightarrow> Threw e
           | Returned None \<Rightarrow> Returned None
           | Returned (Some r) \<Rightarrow>
               Returned (Some
                 \<lparr>node = Some (Node ruleName (slice input pos (position r)) pos (position r)
                           (case children r of None \<Rightarrow> [] | Some cs \<Rightarrow> cs)),
                  children = None,
                  position = position r\<rparr>)))"

primrec parseExpression ::
  "nat \<Rightarrow> parser \<Rightarrow> jsstring \<Rightarrow> nat \<Rightarrow> expression \<Rightarrow> result option outcome"
where
  "parseExpression 0 this input pos expr = Timeout"
| "parseExpression (Suc n) this input pos expr =
     (case expr of
        Alternation alternatives \<Rightarrow>
          alternation_loop (parseExpression n this input pos) alternatives
      | Concatenation elements \<Rightarrow>
          concatenation_loop (parseExpression n this input) elements pos []
      | Repetition mn mx element \<Rightarrow>
          (case repetition_loop n (\<lambda>p. parseExpression n this input p element) mx [] pos 0 of
             Timeout \<Rightarrow> Timeout
           | Threw e \<Rightarrow> Threw e
           | Returned (repChildren, repPos, count) \<Rightarrow>
               if count < mn then Returned None
               else Returned (Some \<lparr>node = None, children = Some repChildren, position = repPos\<rparr>))
      | Optional element \<Rightarrow>
          (case parseExpression n this input pos element of
             Timeout \<Rightarrow> Timeout
           | Threw e \<Rightarrow> Threw e
           | Returned None \<Rightarrow> Returned (Some \<lparr>node = None, children = Some [], position = pos\<rparr>)
           | Returned (Some r) \<Rightarrow> Returned (Some r))
      | Terminal v \<Rightarrow>
          if slice input pos (pos + length v) = v then
            Returned (Some
              \<lparr>node = Some (Node (js ''terminal'') v pos (pos + length v) []),
               children = None,
               position = pos + length v\<rparr>)
          else Returned None
      | CharacterRange lo hi \<Rightarrow>
          (if pos < length input then
             (let char = [input ! pos] in
              if \<not> js_less char lo \<and> (case hi of None \<Rightarrow> False | Some h \<Rightarrow> \<not> js_less h char) then
                Returned (Some
                  \<lparr>node = Some (Node (js ''character'') char pos (pos + 1) []),
                   children = None,
                   position = pos + 1\<rparr>)
              else Returned None)
           else Returned None)
      | NonTerminal name \<Rightarrow> parseRule_body (parseExpression n this input) this input pos name
      | Empty \<Rightarrow> Returned (Some \<lparr>node = None, children = Some [], position = pos\<rparr>))"

definition parseRule ::
  "nat \<Rightarrow> parser \<Rightarrow> jsstring \<Rightarrow> nat \<Rightarrow> jsstring \<Rightarrow> result option outcome"
where
  "parseRule n this input pos ruleName =
     parseRule_body (parseExpression n this input) this input pos ruleName"

text \<open>
  \<^verbatim>\<open>parse(input)\<close>. \<^verbatim>\<open>!this.startRule\<close> holds for \<^verbatim>\<open>null\<close> and for the empty string.
  The value returned is \<^verbatim>\<open>result.node\<close>.
\<close>

definition parse :: "nat \<Rightarrow> parser \<Rightarrow> jsstring \<Rightarrow> parse_node option outcome" where
  "parse n this input =
     (case startRule this of
        None \<Rightarrow> Threw NoStartRule
      | Some start \<Rightarrow>
          if start = [] then Threw NoStartRule
          else
            (case parseRule n this input 0 start of
               Timeout \<Rightarrow> Timeout
             | Threw e \<Rightarrow> Threw e
             | Returned None \<Rightarrow> Threw ParseFailedAtStart
             | Returned (Some r) \<Rightarrow>
                 if position r < length input then
                   Threw (IncompleteParse (drop (position r) input) (position r))
                 else Returned (node r)))"

section \<open>Notions used in the statements\<close>

text \<open>
  A call returns \<open>r\<close> (a result or \<^verbatim>\<open>null\<close>), or throws \<open>err\<close>, when some budget
  suffices for it.
\<close>

definition returns :: "parser \<Rightarrow> jsstring \<Rightarrow> nat \<Rightarrow> expression \<Rightarrow> result option \<Rightarrow> bool" where
  "returns this input pos expr r \<longleftrightarrow> (\<exists>n. parseExpression n this input pos expr = Returned r)"

definition throws :: "parser \<Rightarrow> jsstring \<Rightarrow> nat \<Rightarrow> expression \<Rightarrow> error \<Rightarrow> bool" where
  "throws this input pos expr err \<longleftrightarrow> (\<exists>n. parseExpression n this input pos expr = Threw err)"

fun is_leaf :: "expression \<Rightarrow> bool" where
  "is_leaf (Terminal v) = True"
| "is_leaf (CharacterRange lo hi) = True"
| "is_leaf (NonTerminal name) = True"
| "is_leaf expr = False"

fun node_ok :: "jsstring \<Rightarrow> parse_node \<Rightarrow> bool" where
  "node_ok input (Node t v s e cs) =
     (v = slice input s e \<and> s \<le> e \<and> (\<forall>c \<in> set cs. node_ok input c))"

definition result_ok :: "jsstring \<Rightarrow> nat \<Rightarrow> result \<Rightarrow> bool" where
  "result_ok input pos r \<longleftrightarrow> pos \<le> position r \<and> (\<forall>nd \<in> set (pushed r). node_ok input nd)"

text \<open>
  Which calls of \<^verbatim>\<open>parseExpression\<close> a call makes. \<open>sequence pos es p\<close>: matching the
  expressions \<open>es\<close> one after the other from \<open>pos\<close> succeeds and reaches \<open>p\<close>.
  \<open>subcall (pos, e) (p, e')\<close>: the call on \<open>e\<close> at \<open>pos\<close> calls \<^verbatim>\<open>parseExpression\<close> on
  \<open>e'\<close> at \<open>p\<close>: an alternation tries an alternative once the earlier ones have
  returned \<^verbatim>\<open>null\<close>; a concatenation matches an element once the earlier ones have
  matched; a repetition matches its element again while \<^verbatim>\<open>count < max\<close> and the
  earlier iterations have matched; an optional matches its element; a non-terminal
  of the grammar matches the rule's expression (through \<^verbatim>\<open>parseRule\<close>).
\<close>

inductive sequence :: "parser \<Rightarrow> jsstring \<Rightarrow> nat \<Rightarrow> expression list \<Rightarrow> nat \<Rightarrow> bool"
  for this :: parser and input :: jsstring
where
  sequence_Nil: "sequence this input pos [] pos"
| sequence_Cons:
    "returns this input pos e (Some r) \<Longrightarrow> sequence this input (position r) es p \<Longrightarrow>
     sequence this input pos (e # es) p"

inductive subcall :: "parser \<Rightarrow> jsstring \<Rightarrow> nat \<times> expression \<Rightarrow> nat \<times> expression \<Rightarrow> bool"
  for this :: parser and input :: jsstring
where
  in_Alternation:
    "\<forall>b \<in> set before. returns this input pos b None \<Longrightarrow>
     subcall this input (pos, Alternation (before @ a # after)) (pos, a)"
| in_Concatenation:
    "sequence this input pos before p \<Longrightarrow>
     subcall this input (pos, Concatenation (before @ e # after)) (p, e)"
| in_Repetition:
    "sequence this input pos (replicate c element) p \<Longrightarrow> enat c < mx \<Longrightarrow>
     subcall this input (pos, Repetition mn mx element) (p, element)"
| in_Optional:
    "subcall this input (pos, Optional element) (pos, element)"
| in_NonTerminal:
    "map_of (rules this) name = Some rule \<Longrightarrow>
     subcall this input (pos, NonTerminal name) (pos, rule)"

text \<open>The rule names the lines of a grammar text register, in order.\<close>

definition registered_names :: "jsstring \<Rightarrow> jsstring list" where
  "registered_names str = map fst (List.map_filter ruleMatch (grammar_lines str))"

text \<open>
  The parser state that the rule \<^verbatim>\<open>a ::= "x"\<close> compiles to.
\<close>

definition grammar_a_x :: parser where
  "grammar_a_x =
     \<lparr>grammarText = js ''a ::= \"x\"'',
      rules = [(js ''a'', Terminal (js ''x''))],
      startRule = Some (js ''a'')\<rparr>"

text \<open>
  The parser state that \<^verbatim>\<open>number ::= digit+\<close>, \<^verbatim>\<open>digit ::= 0-9\<close> compiles to (a bare
  \<^verbatim>\<open>0-9\<close> is the character-range syntax of \<^verbatim>\<open>parseElement\<close>).
\<close>

definition grammar_number_range :: parser where
  "grammar_number_range =
     \<lparr>grammarText = js ''number ::= digit+'' @ [0x0A] @ js ''digit ::= 0-9'',
      rules = [(js ''number'', Repetition 1 \<infinity> (NonTerminal (js ''digit''))),
               (js ''digit'', CharacterRange (js ''0'') (Some (js ''9'')))],
      startRule = Some (js ''number'')\<rparr>"


text \<open>
  The parser state that \<^verbatim>\<open>s ::= b? | "x"\<close> compiles to; no rule \<^verbatim>\<open>b\<close> is defined.
\<close>

definition grammar_unknown_reference :: parser where
  "grammar_unknown_reference =
     \<lparr>grammarText = js ''s ::= b? | \"x\"'',
      rules = [(js ''s'', Alternation [Optional (NonTerminal (js ''b'')), Terminal (js ''x'')])],
      startRule = Some (js ''s'')\<rparr>"

text \<open>
  The parser state that \<^verbatim>\<open>number ::= digit+\<close>, \<^verbatim>\<open>digit ::= [0-9]\<close> compiles to: the
  brackets make an optional.
\<close>

definition grammar_number_bracket :: parser where
  "grammar_number_bracket =
     \<lparr>grammarText = js ''number ::= digit+'' @ [0x0A] @ js ''digit ::= [0-9]'',
      rules = [(js ''number'', Repetition 1 \<infinity> (NonTerminal (js ''digit''))),
               (js ''digit'', Optional (CharacterRange (js ''0'') (Some (js ''9''))))],
      startRule = Some (js ''number'')\<rparr>"

section \<open>A larger budget does not change a result\<close>

lemma alternation_loop_mono:
  assumes "\<And>a. a \<in> set alts \<Longrightarrow> pe a \<noteq> Timeout \<Longrightarrow> pe' a = pe a"
    and "alternation_loop pe alts \<noteq> Timeout"
  shows "alternation_loop pe' alts = alternation_loop pe alts"
  using assms
proof (induction alts)
  case Nil
  then show ?case by simp
next
  case (Cons a alts)
  from Cons.prems(2) have nt: "pe a \<noteq> Timeout" by (auto split: outcome.splits)
  then have eq: "pe' a = pe a" using Cons.prems(1) by simp
  show ?case
  proof (cases "pe a = Returned None")
    case True
    with Cons eq show ?thesis by simp
  next
    case False
    with eq nt show ?thesis by (auto split: outcome.splits option.splits)
  qed
qed

lemma concatenation_loop_mono:
  assumes "\<And>p a. a \<in> set es \<Longrightarrow> pe p a \<noteq> Timeout \<Longrightarrow> pe' p a = pe p a"
    and "concatenation_loop pe es pos chn \<noteq> Timeout"
  shows "concatenation_loop pe' es pos chn = concatenation_loop pe es pos chn"
  using assms
proof (induction es arbitrary: pos chn)
  case Nil
  then show ?case by simp
next
  case (Cons a es)
  from Cons.prems(2) have nt: "pe pos a \<noteq> Timeout" by (auto split: outcome.splits)
  then have eq: "pe' pos a = pe pos a" using Cons.prems(1) by simp
  show ?case
  proof (cases "pe pos a")
    case Timeout
    with nt show ?thesis by simp
  next
    case (Threw e)
    with eq show ?thesis by simp
  next
    case (Returned x)
    show ?thesis
    proof (cases x)
      case None
      with Returned eq show ?thesis by simp
    next
      case (Some r)
      with Returned eq Cons.prems(2)
      have "concatenation_loop pe es (position r) (chn @ pushed r) \<noteq> Timeout" by simp
      then have "concatenation_loop pe' es (position r) (chn @ pushed r) =
                 concatenation_loop pe es (position r) (chn @ pushed r)"
        using Cons.IH Cons.prems(1) by simp
      with Some Returned eq show ?thesis by simp
    qed
  qed
qed

lemma repetition_loop_mono:
  assumes "\<And>p. pe p \<noteq> Timeout \<Longrightarrow> pe' p = pe p"
    and "repetition_loop k pe mx chn pos cnt \<noteq> Timeout" and "k \<le> k'"
  shows "repetition_loop k' pe' mx chn pos cnt = repetition_loop k pe mx chn pos cnt"
  using assms(2,3)
proof (induction k arbitrary: k' chn pos cnt)
  case 0
  then have "\<not> enat cnt < mx" by (auto split: if_splits)
  then show ?case by (cases k') auto
next
  case (Suc k)
  then obtain j where j: "k' = Suc j" "k \<le> j" by (cases k') auto
  show ?case
  proof (cases "enat cnt < mx")
    case False
    then show ?thesis by (simp add: j)
  next
    case True
    with Suc.prems(1) have nt: "pe pos \<noteq> Timeout" by (auto split: outcome.splits)
    then have eq: "pe' pos = pe pos" using assms(1) by simp
    show ?thesis
    proof (cases "pe pos")
      case Timeout
      with nt show ?thesis by simp
    next
      case (Threw e)
      with eq True show ?thesis by (simp add: j)
    next
      case (Returned x)
      show ?thesis
      proof (cases x)
        case None
        with Returned eq True show ?thesis by (simp add: j)
      next
        case (Some r)
        with Returned True Suc.prems(1)
        have "repetition_loop k pe mx (chn @ pushed r) (position r) (Suc cnt) \<noteq> Timeout" by simp
        then have "repetition_loop j pe' mx (chn @ pushed r) (position r) (Suc cnt) =
                   repetition_loop k pe mx (chn @ pushed r) (position r) (Suc cnt)"
          using Suc.IH j by simp
        with Some Returned eq True show ?thesis by (simp add: j)
      qed
    qed
  qed
qed

lemma parseRule_body_mono:
  assumes "\<And>p a. pe p a \<noteq> Timeout \<Longrightarrow> pe' p a = pe p a"
    and "parseRule_body pe this input pos name \<noteq> Timeout"
  shows "parseRule_body pe' this input pos name = parseRule_body pe this input pos name"
proof (cases "map_of (rules this) name")
  case None
  then show ?thesis by (simp add: parseRule_body_def)
next
  case (Some rule)
  with assms(2) have "pe pos rule \<noteq> Timeout"
    by (auto simp: parseRule_body_def split: outcome.splits)
  then have "pe' pos rule = pe pos rule" using assms(1) by simp
  with Some show ?thesis by (simp add: parseRule_body_def)
qed

lemma parseExpression_Suc:
  "parseExpression n this input pos expr \<noteq> Timeout \<Longrightarrow>
   parseExpression (Suc n) this input pos expr = parseExpression n this input pos expr"
proof (induction n arbitrary: pos expr)
  case 0
  then show ?case by simp
next
  case (Suc n)
  note IH = Suc.IH
  show ?case
  proof (cases expr)
    case (Alternation alts)
    with Suc.prems have "alternation_loop (parseExpression n this input pos) alts \<noteq> Timeout"
      by simp
    then have "alternation_loop (parseExpression (Suc n) this input pos) alts =
          alternation_loop (parseExpression n this input pos) alts"
      using IH by (intro alternation_loop_mono) auto
    with Alternation show ?thesis by simp
  next
    case (Concatenation es)
    with Suc.prems have "concatenation_loop (parseExpression n this input) es pos [] \<noteq> Timeout"
      by simp
    then have "concatenation_loop (parseExpression (Suc n) this input) es pos [] =
          concatenation_loop (parseExpression n this input) es pos []"
      using IH by (intro concatenation_loop_mono) auto
    with Concatenation show ?thesis by simp
  next
    case (Repetition mn mx el)
    let ?l = "repetition_loop n (\<lambda>p. parseExpression n this input p el) mx [] pos 0"
    from Suc.prems Repetition have nt: "?l \<noteq> Timeout" by (auto split: outcome.splits)
    then have "repetition_loop (Suc n) (\<lambda>p. parseExpression (Suc n) this input p el) mx [] pos 0 = ?l"
      using IH by (intro repetition_loop_mono) auto
    with Repetition show ?thesis by simp
  next
    case (Optional el)
    with Suc.prems have "parseExpression n this input pos el \<noteq> Timeout"
      by (auto split: outcome.splits)
    then have "parseExpression (Suc n) this input pos el = parseExpression n this input pos el"
      by (rule IH)
    with Optional show ?thesis by simp
  next
    case (Terminal v)
    then show ?thesis by simp
  next
    case (CharacterRange lo hi)
    then show ?thesis by simp
  next
    case (NonTerminal name)
    with Suc.prems have "parseRule_body (parseExpression n this input) this input pos name \<noteq> Timeout"
      by simp
    then have "parseRule_body (parseExpression (Suc n) this input) this input pos name =
       parseRule_body (parseExpression n this input) this input pos name"
      using IH by (intro parseRule_body_mono) auto
    with NonTerminal show ?thesis by simp
  next
    case Empty
    then show ?thesis by simp
  qed
qed

lemma parseExpression_mono:
  assumes "parseExpression n this input pos expr \<noteq> Timeout" and "n \<le> m"
  shows "parseExpression m this input pos expr = parseExpression n this input pos expr"
  using assms(2)
proof (induction m)
  case 0
  then show ?case by simp
next
  case (Suc m)
  show ?case
  proof (cases "n = Suc m")
    case True
    then show ?thesis by simp
  next
    case False
    with Suc have eq: "parseExpression m this input pos expr = parseExpression n this input pos expr"
      by simp
    with assms(1) have "parseExpression m this input pos expr \<noteq> Timeout" by simp
    from parseExpression_Suc[OF this] eq show ?thesis by simp
  qed
qed

lemma parseRule_mono:
  assumes "parseRule n this input pos name \<noteq> Timeout" and "n \<le> m"
  shows "parseRule m this input pos name = parseRule n this input pos name"
  unfolding parseRule_def
  using assms
  by (intro parseRule_body_mono) (auto simp: parseRule_def intro: parseExpression_mono)

section \<open>Top-level parse: a prefix match is a failure\<close>

text \<open>
  C2. Whenever matching the start rule at offset 0 succeeds and the position it
  reaches is below the length of the input, \<^verbatim>\<open>parse\<close> throws the incomplete-parse
  error, which carries the unconsumed suffix \<^verbatim>\<open>input.slice(position)\<close> and the
  position.
\<close>

theorem parse_incomplete:
  assumes "startRule this = Some start" and "start \<noteq> []"
    and "parseRule n this input 0 start = Returned (Some r)"
    and "position r < length input"
  shows "parse n this input = Threw (IncompleteParse (drop (position r) input) (position r))"
  using assms by (simp add: parse_def)

text \<open>
  The instance of the specification: rule \<^verbatim>\<open>a ::= "x"\<close>, input \<^verbatim>\<open>xy\<close>; the error
  carries \<^verbatim>\<open>y\<close> and offset 1.
\<close>

theorem parse_incomplete_witness:
  "startRule grammar_a_x = Some (js ''a'') \<and> js ''a'' \<noteq> [] \<and>
   parseRule 1 grammar_a_x (js ''xy'') 0 (js ''a'') =
     Returned (Some \<lparr>node = Some (Node (js ''a'') (js ''x'') 0 1 []), children = None, position = 1\<rparr>) \<and>
   (1::nat) < length (js ''xy'') \<and>
   parse 1 grammar_a_x (js ''xy'') = Threw (IncompleteParse (js ''y'') 1)"
proof -
  let ?r = "\<lparr>node = Some (Node (js ''a'') (js ''x'') 0 1 []), children = None, position = 1\<rparr>"
  have s: "startRule grammar_a_x = Some (js ''a'')" by (simp add: grammar_a_x_def)
  have ne: "js ''a'' \<noteq> []" by (simp add: js_def)
  have m: "parseRule 1 grammar_a_x (js ''xy'') 0 (js ''a'') = Returned (Some ?r)"
    by (simp add: grammar_a_x_def parseRule_def parseRule_body_def js_def slice_def)
  have l: "position ?r < length (js ''xy'')" by (simp add: js_def)
  from parse_incomplete[OF s ne m l] s ne m l show ?thesis by (simp add: js_def)
qed

section \<open>Results independent of the budget\<close>

lemma parseExpression_Returned_mono:
  "parseExpression n this input pos expr = Returned r \<Longrightarrow> n \<le> m \<Longrightarrow>
   parseExpression m this input pos expr = Returned r"
  using parseExpression_mono[of n this input pos expr m] by simp

lemma parseExpression_Threw_mono:
  "parseExpression n this input pos expr = Threw e \<Longrightarrow> n \<le> m \<Longrightarrow>
   parseExpression m this input pos expr = Threw e"
  using parseExpression_mono[of n this input pos expr m] by simp

lemma parseExpression_agree:
  assumes "parseExpression n this input pos expr \<noteq> Timeout"
    and "parseExpression m this input pos expr \<noteq> Timeout"
  shows "parseExpression n this input pos expr = parseExpression m this input pos expr"
proof (cases "n \<le> m")
  case True
  from parseExpression_mono[OF assms(1) True] show ?thesis by simp
next
  case False
  then have "m \<le> n" by simp
  from parseExpression_mono[OF assms(2) this] show ?thesis by simp
qed

section \<open>Alternation\<close>

lemma returns_common_budget:
  assumes "\<forall>a \<in> set xs. returns this input pos a None"
  shows "\<exists>N. \<forall>a \<in> set xs. parseExpression N this input pos a = Returned None"
  using assms
proof (induction xs)
  case Nil
  then show ?case by simp
next
  case (Cons a xs)
  then obtain N where N: "\<forall>b \<in> set xs. parseExpression N this input pos b = Returned None"
    by auto
  from Cons.prems obtain k where k: "parseExpression k this input pos a = Returned None"
    by (auto simp: returns_def)
  have "parseExpression (max N k) this input pos b = Returned None" if "b \<in> set (a # xs)" for b
  proof (cases "b = a")
    case True
    with k show ?thesis by (simp add: parseExpression_Returned_mono[of k _ _ _ _ _ "max N k"])
  next
    case False
    with that N have "parseExpression N this input pos b = Returned None" by simp
    then show ?thesis by (simp add: parseExpression_Returned_mono[of N _ _ _ _ _ "max N k"])
  qed
  then show ?case by blast
qed

lemma alternation_loop_skip:
  assumes "\<forall>a \<in> set xs. pe a = Returned None"
  shows "alternation_loop pe (xs @ ys) = alternation_loop pe ys"
  using assms by (induction xs) auto

lemma alternation_loop_None:
  "alternation_loop pe alts = Returned None \<longleftrightarrow> (\<forall>a \<in> set alts. pe a = Returned None)"
proof (induction alts)
  case Nil
  then show ?case by simp
next
  case (Cons a alts)
  show ?case
  proof (cases "pe a")
    case Timeout
    then show ?thesis by simp
  next
    case (Threw e)
    then show ?thesis by simp
  next
    case (Returned x)
    with Cons show ?thesis by (cases x) simp_all
  qed
qed

text \<open>
  C7. An alternation tries its alternatives in order at the same position: when
  the alternatives before the \<open>i\<close>-th return \<^verbatim>\<open>null\<close> and the \<open>i\<close>-th returns a result,
  the alternation returns exactly that result, whatever the earlier alternatives
  were; and it returns \<^verbatim>\<open>null\<close> iff every alternative returns \<^verbatim>\<open>null\<close>.
\<close>

theorem alternation_ordered_choice:
  "(i < length alts \<and> (\<forall>j<i. returns this input pos (alts ! j) None) \<and>
      returns this input pos (alts ! i) (Some r)
      \<longrightarrow> returns this input pos (Alternation alts) (Some r)) \<and>
   (returns this input pos (Alternation alts) None
      \<longleftrightarrow> (\<forall>a \<in> set alts. returns this input pos a None))"
proof (intro conjI impI iffI)
  assume a: "i < length alts \<and> (\<forall>j<i. returns this input pos (alts ! j) None) \<and>
      returns this input pos (alts ! i) (Some r)"
  then have "\<forall>a \<in> set (take i alts). returns this input pos a None"
    by (auto simp: in_set_conv_nth)
  then obtain N where N: "\<forall>a \<in> set (take i alts). parseExpression N this input pos a = Returned None"
    using returns_common_budget by blast
  from a obtain k where k: "parseExpression k this input pos (alts ! i) = Returned (Some r)"
    by (auto simp: returns_def)
  let ?M = "max N k"
  have 1: "\<forall>a \<in> set (take i alts). parseExpression ?M this input pos a = Returned None"
    using N by (simp add: parseExpression_Returned_mono[of N _ _ _ _ _ ?M])
  have 2: "parseExpression ?M this input pos (alts ! i) = Returned (Some r)"
    using k by (simp add: parseExpression_Returned_mono[of k _ _ _ _ _ ?M])
  from a have split: "alts = take i alts @ alts ! i # drop (Suc i) alts"
    by (simp add: id_take_nth_drop)
  have "alternation_loop (parseExpression ?M this input pos) alts =
        alternation_loop (parseExpression ?M this input pos) (alts ! i # drop (Suc i) alts)"
    by (subst split) (rule alternation_loop_skip[OF 1])
  also have "\<dots> = Returned (Some r)" using 2 by simp
  finally have "parseExpression (Suc ?M) this input pos (Alternation alts) = Returned (Some r)"
    by simp
  then show "returns this input pos (Alternation alts) (Some r)"
    unfolding returns_def by blast
next
  assume "returns this input pos (Alternation alts) None"
  then obtain n where n: "parseExpression n this input pos (Alternation alts) = Returned None"
    by (auto simp: returns_def)
  then obtain m where m: "n = Suc m" by (cases n) auto
  with n have "alternation_loop (parseExpression m this input pos) alts = Returned None" by simp
  then have "\<forall>a \<in> set alts. parseExpression m this input pos a = Returned None"
    by (simp add: alternation_loop_None)
  then show "\<forall>a \<in> set alts. returns this input pos a None"
    unfolding returns_def by blast
next
  assume "\<forall>a \<in> set alts. returns this input pos a None"
  then obtain N where "\<forall>a \<in> set alts. parseExpression N this input pos a = Returned None"
    using returns_common_budget by blast
  then have "alternation_loop (parseExpression N this input pos) alts = Returned None"
    by (simp add: alternation_loop_None)
  then have "parseExpression (Suc N) this input pos (Alternation alts) = Returned None" by simp
  then show "returns this input pos (Alternation alts) None"
    unfolding returns_def by blast
qed

text \<open>
  The instance of the specification: \<^verbatim>\<open>"hello" | "hi"\<close> against \<^verbatim>\<open>hi\<close> succeeds with
  the result of the second alternative.
\<close>

theorem alternation_ordered_choice_witness:
  "returns grammar_a_x (js ''hi'') 0 (Terminal (js ''hello'')) None \<and>
   returns grammar_a_x (js ''hi'') 0 (Terminal (js ''hi''))
     (Some \<lparr>node = Some (Node (js ''terminal'') (js ''hi'') 0 2 []), children = None, position = 2\<rparr>) \<and>
   returns grammar_a_x (js ''hi'') 0 (Alternation [Terminal (js ''hello''), Terminal (js ''hi'')])
     (Some \<lparr>node = Some (Node (js ''terminal'') (js ''hi'') 0 2 []), children = None, position = 2\<rparr>)"
proof -
  let ?r = "\<lparr>node = Some (Node (js ''terminal'') (js ''hi'') 0 2 []), children = None, position = 2\<rparr>"
  let ?alts = "[Terminal (js ''hello''), Terminal (js ''hi'')]"
  have f: "returns grammar_a_x (js ''hi'') 0 (Terminal (js ''hello'')) None"
    unfolding returns_def by (rule exI[of _ 1]) (simp add: js_def slice_def)
  have s: "returns grammar_a_x (js ''hi'') 0 (Terminal (js ''hi'')) (Some ?r)"
    unfolding returns_def by (rule exI[of _ 1]) (simp add: js_def slice_def)
  have h: "(1::nat) < length ?alts \<and> (\<forall>j<1. returns grammar_a_x (js ''hi'') 0 (?alts ! j) None) \<and>
      returns grammar_a_x (js ''hi'') 0 (?alts ! 1) (Some ?r)"
    using f s by simp
  have "returns grammar_a_x (js ''hi'') 0 (Alternation ?alts) (Some ?r)"
    by (rule alternation_ordered_choice[of 1 ?alts grammar_a_x "js ''hi''" 0 ?r, THEN conjunct1, THEN mp, OF h])
  with f s show ?thesis by (intro conjI)
qed

section \<open>Rule nodes over a leaf expression\<close>

lemma parseRule_body_children:
  "parseRule_body pe this input pos name = Returned (Some r) \<Longrightarrow> children r = None"
  by (auto simp: parseRule_body_def split: option.splits outcome.splits)

lemma leaf_result_children:
  assumes "is_leaf expr" and "parseExpression n this input pos expr = Returned (Some r)"
  shows "children r = None"
proof (cases n)
  case 0
  with assms(2) show ?thesis by simp
next
  case (Suc m)
  show ?thesis
  proof (cases expr)
    case (Terminal v)
    with assms(2) Suc show ?thesis by (auto split: if_splits)
  next
    case (CharacterRange lo hi)
    with assms(2) Suc show ?thesis by (auto simp: Let_def split: if_splits)
  next
    case (NonTerminal name)
    with assms(2) Suc show ?thesis by (auto dest: parseRule_body_children)
  qed (use assms(1) in simp_all)
qed

text \<open>
  C1, as the code has it. When a rule whose root expression is a terminal, a
  character range or a non-terminal matches, \<^verbatim>\<open>parseRule\<close> builds the rule node from
  \<^verbatim>\<open>result.children || []\<close>; the result of such an expression has a \<^verbatim>\<open>node\<close> and no
  \<^verbatim>\<open>children\<close>, so the rule node has no children: the node of the leaf match is
  dropped, and only the position it reached is kept.
\<close>

theorem parseRule_leaf_root_no_children:
  assumes "map_of (rules this) ruleName = Some rule" and "is_leaf rule"
    and "parseRule n this input pos ruleName = Returned (Some r)"
  shows "node r = Some (Node ruleName (slice input pos (position r)) pos (position r) [])"
proof -
  from assms(1,3) obtain r' where
    r': "parseExpression n this input pos rule = Returned (Some r')" and
    r: "r = \<lparr>node = Some (Node ruleName (slice input pos (position r')) pos (position r')
                 (case children r' of None \<Rightarrow> [] | Some cs \<Rightarrow> cs)),
             children = None, position = position r'\<rparr>"
    by (auto simp: parseRule_def parseRule_body_def split: outcome.splits option.splits)
  from leaf_result_children[OF assms(2) r'] have "children r' = None" .
  with r show ?thesis by simp
qed

theorem parseRule_leaf_root_no_children_witness:
  "map_of (rules grammar_a_x) (js ''a'') = Some (Terminal (js ''x'')) \<and>
   is_leaf (Terminal (js ''x'')) \<and>
   parseRule 1 grammar_a_x (js ''x'') 0 (js ''a'') =
     Returned (Some \<lparr>node = Some (Node (js ''a'') (js ''x'') 0 1 []), children = None, position = 1\<rparr>) \<and>
   node \<lparr>node = Some (Node (js ''a'') (js ''x'') 0 1 []), children = None, position = 1\<rparr> =
     Some (Node (js ''a'') (slice (js ''x'') 0 1) 0 1 [])"
proof -
  let ?r = "\<lparr>node = Some (Node (js ''a'') (js ''x'') 0 1 []), children = None, position = 1\<rparr>"
  have l: "map_of (rules grammar_a_x) (js ''a'') = Some (Terminal (js ''x''))"
    by (simp add: grammar_a_x_def)
  have t: "is_leaf (Terminal (js ''x''))" by simp
  have m: "parseRule 1 grammar_a_x (js ''x'') 0 (js ''a'') = Returned (Some ?r)"
    by (simp add: grammar_a_x_def parseRule_def parseRule_body_def js_def slice_def)
  from parseRule_leaf_root_no_children[OF l t m] l t m show ?thesis by simp
qed

text \<open>
  C1 as stated fails: for the rule \<^verbatim>\<open>a ::= "x"\<close> matched against \<^verbatim>\<open>x\<close> the rule node
  has an empty list of children, not one terminal child.
\<close>

theorem parseRule_leaf_not_nested:
  "parseRule 1 grammar_a_x (js ''x'') 0 (js ''a'') =
     Returned (Some \<lparr>node = Some (Node (js ''a'') (js ''x'') 0 1 []), children = None, position = 1\<rparr>) \<and>
   node_children (Node (js ''a'') (js ''x'') 0 1 []) \<noteq> [Node (js ''terminal'') (js ''x'') 0 1 []]"
  by (simp add: grammar_a_x_def parseRule_def parseRule_body_def js_def slice_def)
section \<open>Nodes are slices of the input\<close>

lemma slice_char: "pos < length input \<Longrightarrow> slice input pos (pos + 1) = [input ! pos]"
  by (simp add: slice_def take_Suc_conv_app_nth hd_drop_conv_nth take_Suc)

lemma alternation_loop_result:
  assumes "\<And>a r. a \<in> set alts \<Longrightarrow> pe a = Returned (Some r) \<Longrightarrow> Q r"
    and "alternation_loop pe alts = Returned (Some r)"
  shows "Q r"
  using assms
proof (induction alts)
  case Nil
  then show ?case by simp
next
  case (Cons a alts)
  show ?case
  proof (cases "pe a")
    case Timeout
    with Cons.prems(2) show ?thesis by simp
  next
    case (Threw e)
    with Cons.prems(2) show ?thesis by simp
  next
    case (Returned x)
    show ?thesis
    proof (cases x)
      case None
      with Returned Cons.prems(2) have "alternation_loop pe alts = Returned (Some r)" by simp
      then show ?thesis using Cons.IH Cons.prems(1) by auto
    next
      case (Some r')
      with Returned Cons.prems(2) have "r' = r" by simp
      with Some Returned Cons.prems(1)[of a r] show ?thesis by simp
    qed
  qed
qed

lemma concatenation_loop_ok:
  assumes "\<And>p a r. a \<in> set es \<Longrightarrow> pe p a = Returned (Some r) \<Longrightarrow> result_ok input p r"
    and "\<forall>c \<in> set chn. node_ok input c"
    and "concatenation_loop pe es cur chn = Returned (Some r)"
  shows "result_ok input cur r"
  using assms
proof (induction es arbitrary: cur chn)
  case Nil
  then show ?case by (auto simp: result_ok_def pushed_def)
next
  case (Cons a es)
  from Cons.prems(3) obtain r' where
    r': "pe cur a = Returned (Some r')" and
    rest: "concatenation_loop pe es (position r') (chn @ pushed r') = Returned (Some r)"
    by (auto split: outcome.splits option.splits)
  from Cons.prems(1)[of a cur r'] r' have ok': "result_ok input cur r'" by simp
  then have "\<forall>c \<in> set (chn @ pushed r'). node_ok input c"
    using Cons.prems(2) by (auto simp: result_ok_def)
  from Cons.IH[OF _ this rest] Cons.prems(1) have "result_ok input (position r') r" by auto
  with ok' show ?case by (auto simp: result_ok_def)
qed

lemma repetition_loop_ok:
  assumes "\<And>p r. pe p = Returned (Some r) \<Longrightarrow> result_ok input p r"
    and "\<forall>c \<in> set chn. node_ok input c"
    and "repetition_loop k pe mx chn cur cnt = Returned (chn', p', cnt')"
  shows "cur \<le> p' \<and> (\<forall>c \<in> set chn'. node_ok input c)"
  using assms(2,3)
proof (induction k arbitrary: chn cur cnt)
  case 0
  then show ?case by (auto split: if_splits)
next
  case (Suc k)
  show ?case
  proof (cases "enat cnt < mx")
    case False
    with Suc.prems show ?thesis by simp
  next
    case True
    show ?thesis
    proof (cases "pe cur")
      case Timeout
      with True Suc.prems(2) show ?thesis by simp
    next
      case (Threw e)
      with True Suc.prems(2) show ?thesis by simp
    next
      case (Returned x)
      show ?thesis
      proof (cases x)
        case None
        with Returned True Suc.prems show ?thesis by simp
      next
        case (Some r)
        with Returned assms(1) have ok: "result_ok input cur r" by simp
        then have 1: "\<forall>c \<in> set (chn @ pushed r). node_ok input c"
          using Suc.prems(1) by (auto simp: result_ok_def)
        from Some Returned True Suc.prems(2)
        have 2: "repetition_loop k pe mx (chn @ pushed r) (position r) (Suc cnt) = Returned (chn', p', cnt')"
          by simp
        from Suc.IH[OF 1 2] ok show ?thesis by (auto simp: result_ok_def)
      qed
    qed
  qed
qed

lemma parseRule_body_ok:
  assumes "\<And>p a r. pe p a = Returned (Some r) \<Longrightarrow> result_ok input p r"
    and "parseRule_body pe this input pos name = Returned (Some r)"
  shows "result_ok input pos r"
proof -
  from assms(2) obtain rule r' where
    r': "pe pos rule = Returned (Some r')" and
    r: "r = \<lparr>node = Some (Node name (slice input pos (position r')) pos (position r')
                 (case children r' of None \<Rightarrow> [] | Some cs \<Rightarrow> cs)),
             children = None, position = position r'\<rparr>"
    by (auto simp: parseRule_body_def split: outcome.splits option.splits)
  from assms(1)[OF r'] have "result_ok input pos r'" .
  with r show ?thesis by (auto simp: result_ok_def pushed_def split: option.splits)
qed

lemma parseExpression_ok:
  "parseExpression n this input pos expr = Returned (Some r) \<Longrightarrow> result_ok input pos r"
proof (induction n arbitrary: pos expr r)
  case 0
  then show ?case by simp
next
  case (Suc n)
  note IH = Suc.IH
  show ?case
  proof (cases expr)
    case (Alternation alts)
    with Suc.prems have "alternation_loop (parseExpression n this input pos) alts = Returned (Some r)"
      by simp
    then show ?thesis using IH by (rule alternation_loop_result[rotated])
  next
    case (Concatenation es)
    with Suc.prems have "concatenation_loop (parseExpression n this input) es pos [] = Returned (Some r)"
      by simp
    then show ?thesis
    proof (rule concatenation_loop_ok[rotated 2])
      show "result_ok input p r'" if "parseExpression n this input p a = Returned (Some r')" for p a r'
        using that by (rule IH)
    qed simp
  next
    case (Repetition mn mx el)
    let ?l = "repetition_loop n (\<lambda>p. parseExpression n this input p el) mx [] pos 0"
    from Suc.prems Repetition obtain chn' p' cnt' where l: "?l = Returned (chn', p', cnt')"
      by (cases ?l) auto
    with Suc.prems Repetition
    have r: "r = \<lparr>node = None, children = Some chn', position = p'\<rparr>"
      by (simp split: if_splits)
    have "pos \<le> p' \<and> (\<forall>c \<in> set chn'. node_ok input c)"
    proof (rule repetition_loop_ok[OF _ _ l])
      show "result_ok input p r'" if "parseExpression n this input p el = Returned (Some r')" for p r'
        using that by (rule IH)
    qed simp
    then show ?thesis by (simp add: r result_ok_def pushed_def)
  next
    case (Optional el)
    show ?thesis
    proof (cases "parseExpression n this input pos el")
      case Timeout
      with Suc.prems Optional show ?thesis by simp
    next
      case (Threw e)
      with Suc.prems Optional show ?thesis by simp
    next
      case (Returned x)
      show ?thesis
      proof (cases x)
        case None
        with Returned Suc.prems Optional
        have "r = \<lparr>node = None, children = Some [], position = pos\<rparr>" by simp
        then show ?thesis by (simp add: result_ok_def pushed_def)
      next
        case (Some r')
        with Returned Suc.prems Optional have "r' = r" by simp
        with Some Returned IH[of pos el r] show ?thesis by simp
      qed
    qed
  next
    case (Terminal v)
    with Suc.prems have c: "slice input pos (pos + length v) = v"
      and r: "r = \<lparr>node = Some (Node (js ''terminal'') v pos (pos + length v) []),
               children = None, position = pos + length v\<rparr>"
      by (simp_all split: if_splits)
    show ?thesis by (simp add: r result_ok_def pushed_def c)
  next
    case (CharacterRange lo hi)
    with Suc.prems have c: "pos < length input"
      and r: "r = \<lparr>node = Some (Node (js ''character'') [input ! pos] pos (pos + 1) []),
               children = None, position = pos + 1\<rparr>"
      by (simp_all add: Let_def split: if_splits)
    from slice_char[OF c] show ?thesis by (simp add: r result_ok_def pushed_def)
  next
    case (NonTerminal name)
    with Suc.prems have "parseRule_body (parseExpression n this input) this input pos name = Returned (Some r)"
      by simp
    then show ?thesis
    proof (rule parseRule_body_ok[rotated])
      show "result_ok input p r'" if "parseExpression n this input p a = Returned (Some r')" for p a r'
        using that by (rule IH)
    qed
  next
    case Empty
    with Suc.prems have "r = \<lparr>node = None, children = Some [], position = pos\<rparr>" by simp
    then show ?thesis by (simp add: result_ok_def pushed_def)
  qed
qed

text \<open>
  C8. Every node of a successful match, the root and all its descendants, has
  \<^verbatim>\<open>value == input.slice(start, end)\<close> and \<^verbatim>\<open>start <= end\<close>: for the nodes a
  \<^verbatim>\<open>parseExpression\<close> or \<^verbatim>\<open>parseRule\<close> result carries (its \<^verbatim>\<open>node\<close> and its \<^verbatim>\<open>children\<close>),
  and for the tree \<^verbatim>\<open>parse\<close> returns.
\<close>

theorem nodes_are_input_slices:
  "(parseExpression n this input pos expr = Returned (Some r)
      \<longrightarrow> (\<forall>nd \<in> set (pushed r). node_ok input nd)) \<and>
   (parseRule n this input pos ruleName = Returned (Some r')
      \<longrightarrow> (\<forall>nd \<in> set (pushed r'). node_ok input nd)) \<and>
   (parse n this input = Returned (Some tree) \<longrightarrow> node_ok input tree)"
proof (intro conjI impI)
  assume "parseExpression n this input pos expr = Returned (Some r)"
  then have "result_ok input pos r" by (rule parseExpression_ok)
  then show "\<forall>nd \<in> set (pushed r). node_ok input nd" by (simp add: result_ok_def)
next
  assume "parseRule n this input pos ruleName = Returned (Some r')"
  then have "result_ok input pos r'"
    unfolding parseRule_def
  proof (rule parseRule_body_ok[rotated])
    show "result_ok input p x" if "parseExpression n this input p a = Returned (Some x)" for p a x
      using that by (rule parseExpression_ok)
  qed
  then show "\<forall>nd \<in> set (pushed r'). node_ok input nd" by (simp add: result_ok_def)
next
  assume p: "parse n this input = Returned (Some tree)"
  then obtain start x where
    x: "parseRule n this input 0 start = Returned (Some x)" and nd: "node x = Some tree"
    by (auto simp: parse_def split: option.splits if_splits outcome.splits)
  from x have "result_ok input 0 x"
    unfolding parseRule_def
  proof (rule parseRule_body_ok[rotated])
    show "result_ok input p y" if "parseExpression n this input p a = Returned (Some y)" for p a y
      using that by (rule parseExpression_ok)
  qed
  with nd show "node_ok input tree" by (simp add: result_ok_def pushed_def)
qed

theorem nodes_are_input_slices_witness:
  "parse 5 grammar_number_range (js ''123'') =
     Returned (Some (Node (js ''number'') (js ''123'') 0 3
       [Node (js ''digit'') (js ''1'') 0 1 [], Node (js ''digit'') (js ''2'') 1 2 [],
        Node (js ''digit'') (js ''3'') 2 3 []])) \<and>
   node_ok (js ''123'') (Node (js ''number'') (js ''123'') 0 3
       [Node (js ''digit'') (js ''1'') 0 1 [], Node (js ''digit'') (js ''2'') 1 2 [],
        Node (js ''digit'') (js ''3'') 2 3 []])"
proof -
  let ?tree = "Node (js ''number'') (js ''123'') 0 3
       [Node (js ''digit'') (js ''1'') 0 1 [], Node (js ''digit'') (js ''2'') 1 2 [],
        Node (js ''digit'') (js ''3'') 2 3 []]"
  have p: "parse 5 grammar_number_range (js ''123'') = Returned (Some ?tree)"
    by code_simp
  from nodes_are_input_slices[of 5 grammar_number_range "js ''123''" 0 Empty _ "[]" _ ?tree] p
  show ?thesis by blast
qed

section \<open>Unbounded repetition of an element that consumes nothing\<close>

lemma repetition_loop_stuck:
  assumes "pe pos = Timeout \<or> (\<exists>r. pe pos = Returned (Some r) \<and> position r = pos)"
  shows "repetition_loop k pe \<infinity> chn pos cnt = Timeout"
proof (induction k arbitrary: chn cnt)
  case 0
  show ?case by simp
next
  case (Suc k)
  from assms show ?case
  proof
    assume "pe pos = Timeout"
    then show ?thesis by simp
  next
    assume "\<exists>r. pe pos = Returned (Some r) \<and> position r = pos"
    then obtain r where "pe pos = Returned (Some r)" and "position r = pos" by blast
    then show ?thesis using Suc.IH by simp
  qed
qed

text \<open>
  C9. If the element of a repetition with \<^verbatim>\<open>max = Infinity\<close> succeeds at position
  \<open>pos\<close> without consuming input (it returns a result whose position is \<open>pos\<close>), then
  matching the repetition at \<open>pos\<close> does not terminate, whatever \<open>min\<close> is: no budget
  yields a result or an error. The loop sees the same success at the same position
  in every iteration.
\<close>

theorem repetition_of_nonconsuming_diverges:
  assumes "returns this input pos element (Some r)" and "position r = pos"
  shows "\<forall>n. parseExpression n this input pos (Repetition mn \<infinity> element) = Timeout"
proof
  fix n
  from assms(1) obtain k where k: "parseExpression k this input pos element = Returned (Some r)"
    by (auto simp: returns_def)
  show "parseExpression n this input pos (Repetition mn \<infinity> element) = Timeout"
  proof (cases n)
    case 0
    then show ?thesis by simp
  next
    case (Suc m)
    have "parseExpression m this input pos element = Timeout \<or>
          (\<exists>r'. parseExpression m this input pos element = Returned (Some r') \<and> position r' = pos)"
    proof (cases "parseExpression m this input pos element = Timeout")
      case True
      then show ?thesis by simp
    next
      case False
      from k have "parseExpression k this input pos element \<noteq> Timeout" by simp
      from parseExpression_agree[OF False this] k
      have "parseExpression m this input pos element = Returned (Some r)" by simp
      with assms(2) show ?thesis by simp
    qed
    then have "repetition_loop m (\<lambda>p. parseExpression m this input p element) \<infinity> [] pos 0 = Timeout"
      by (rule repetition_loop_stuck)
    with Suc show ?thesis by simp
  qed
qed

text \<open>
  The elements the claim lists: \<^verbatim>\<open>empty\<close>, the empty terminal, an optional or a
  min-0 repetition whose element fails at \<open>pos\<close>.
\<close>

lemma returns_Empty:
  "returns this input pos Empty (Some \<lparr>node = None, children = Some [], position = pos\<rparr>)"
  unfolding returns_def by (rule exI[of _ 1]) simp

lemma returns_empty_Terminal:
  "returns this input pos (Terminal [])
     (Some \<lparr>node = Some (Node (js ''terminal'') [] pos pos []), children = None, position = pos\<rparr>)"
  unfolding returns_def by (rule exI[of _ 1]) (simp add: slice_def)

lemma returns_Optional_of_failure:
  assumes "returns this input pos element None"
  shows "returns this input pos (Optional element)
           (Some \<lparr>node = None, children = Some [], position = pos\<rparr>)"
proof -
  from assms obtain n where "parseExpression n this input pos element = Returned None"
    by (auto simp: returns_def)
  then have "parseExpression (Suc n) this input pos (Optional element) =
      Returned (Some \<lparr>node = None, children = Some [], position = pos\<rparr>)" by simp
  then show ?thesis unfolding returns_def by blast
qed

lemma returns_Repetition_of_failure:
  assumes "returns this input pos element None"
  shows "returns this input pos (Repetition 0 mx element)
           (Some \<lparr>node = None, children = Some [], position = pos\<rparr>)"
proof -
  from assms obtain n where n: "parseExpression n this input pos element = Returned None"
    by (auto simp: returns_def)
  have "parseExpression (Suc n) this input pos element = Returned None"
    using parseExpression_Returned_mono[OF n, of "Suc n"] by simp
  then have "repetition_loop (Suc n) (\<lambda>p. parseExpression (Suc n) this input p element) mx [] pos 0
        = Returned ([], pos, 0)"
    by simp
  then have "parseExpression (Suc (Suc n)) this input pos (Repetition 0 mx element) =
      Returned (Some \<lparr>node = None, children = Some [], position = pos\<rparr>)" by simp
  then show ?thesis unfolding returns_def by blast
qed

theorem repetition_of_nonconsuming_diverges_witness:
  "returns grammar_a_x (js ''x'') 0 Empty (Some \<lparr>node = None, children = Some [], position = 0\<rparr>) \<and>
   position \<lparr>node = None, children = Some [], position = 0\<rparr> = 0 \<and>
   (\<forall>n. parseExpression n grammar_a_x (js ''x'') 0 (Repetition 0 \<infinity> Empty) = Timeout)"
proof -
  let ?r = "\<lparr>node = None, children = Some [], position = 0::nat\<rparr>"
  have a: "returns grammar_a_x (js ''x'') 0 Empty (Some ?r)" by (rule returns_Empty)
  have b: "position ?r = 0" by simp
  from repetition_of_nonconsuming_diverges[OF a b] a b show ?thesis by blast
qed

section \<open>An unknown rule is an exception, not a failed match\<close>

lemma alternation_loop_Threw:
  assumes "\<forall>b \<in> set before. pe b = Returned None" and "pe a = Threw err"
  shows "alternation_loop pe (before @ a # after) = Threw err"
  using assms by (induction before) auto

lemma concatenation_loop_Threw:
  assumes "sequence this input pos before p"
    and "parseExpression k this input p e = Threw err"
  shows "\<exists>N. \<forall>chn. concatenation_loop (parseExpression N this input) (before @ e # after) pos chn
           = Threw err"
  using assms
proof (induction arbitrary: rule: sequence.induct)
  case (sequence_Nil pos)
  then have "\<forall>chn. concatenation_loop (parseExpression k this input) ([] @ e # after) pos chn
      = Threw err" by simp
  then show ?case ..
next
  case (sequence_Cons pos a r es p)
  then obtain N where N: "\<forall>chn. concatenation_loop (parseExpression N this input)
      (es @ e # after) (position r) chn = Threw err" by blast
  from sequence_Cons.hyps(1) obtain m where
    m: "parseExpression m this input pos a = Returned (Some r)" by (auto simp: returns_def)
  let ?M = "max N m"
  have a: "parseExpression ?M this input pos a = Returned (Some r)"
    using parseExpression_Returned_mono[OF m, of ?M] by simp
  have "concatenation_loop (parseExpression ?M this input) (es @ e # after) (position r) chn
      = Threw err" for chn
  proof -
    have nt: "concatenation_loop (parseExpression N this input) (es @ e # after) (position r) chn
        \<noteq> Timeout" using N by simp
    have "concatenation_loop (parseExpression ?M this input) (es @ e # after) (position r) chn =
        concatenation_loop (parseExpression N this input) (es @ e # after) (position r) chn"
    proof (rule concatenation_loop_mono[OF _ nt])
      show "parseExpression ?M this input q x = parseExpression N this input q x"
        if "parseExpression N this input q x \<noteq> Timeout" for q x
        using parseExpression_mono[OF that, of ?M] by simp
    qed
    with N show ?thesis by simp
  qed
  with a have "\<forall>chn. concatenation_loop (parseExpression ?M this input)
      ((a # es) @ e # after) pos chn = Threw err" by simp
  then show ?case ..
qed

lemma repetition_loop_Threw:
  assumes "sequence this input pos (replicate c element) p"
    and "parseExpression k this input p element = Threw err"
    and "enat (cnt + c) < mx"
  shows "\<exists>N. \<forall>M\<ge>N. \<forall>j chn. repetition_loop (Suc (c + j)) (\<lambda>q. parseExpression M this input q element)
           mx chn pos cnt = Threw err"
  using assms
proof (induction c arbitrary: pos cnt)
  case 0
  then have p: "p = pos" by (auto elim: sequence.cases)
  from 0 have lt: "enat cnt < mx" by simp
  have "\<forall>M\<ge>k. \<forall>j chn. repetition_loop (Suc (0 + j)) (\<lambda>q. parseExpression M this input q element)
           mx chn pos cnt = Threw err"
  proof (intro allI impI)
    fix M j chn
    assume "k \<le> M"
    from parseExpression_Threw_mono[OF 0(2) this] p lt
    show "repetition_loop (Suc (0 + j)) (\<lambda>q. parseExpression M this input q element)
           mx chn pos cnt = Threw err" by simp
  qed
  then show ?case ..
next
  case (Suc c)
  from Suc.prems(1) obtain r where
    r: "returns this input pos element (Some r)" and
    rest: "sequence this input (position r) (replicate c element) p"
    by (auto elim: sequence.cases)
  from Suc.prems(3) have lt': "enat (Suc cnt + c) < mx" by simp
  have lt: "enat cnt < mx"
    by (rule le_less_trans[OF _ Suc.prems(3)]) simp
  from Suc.IH[OF rest Suc.prems(2) lt'] obtain N where
    N: "\<forall>M\<ge>N. \<forall>j chn. repetition_loop (Suc (c + j)) (\<lambda>q. parseExpression M this input q element)
           mx chn (position r) (Suc cnt) = Threw err" by blast
  from r obtain m where m: "parseExpression m this input pos element = Returned (Some r)"
    by (auto simp: returns_def)
  have "\<forall>M\<ge>max N m. \<forall>j chn. repetition_loop (Suc (Suc c + j))
          (\<lambda>q. parseExpression M this input q element) mx chn pos cnt = Threw err"
  proof (intro allI impI)
    fix M j chn
    assume M: "max N m \<le> M"
    then have "m \<le> M" by simp
    from parseExpression_Returned_mono[OF m this]
    have a: "parseExpression M this input pos element = Returned (Some r)" .
    from M N have "repetition_loop (Suc (c + j)) (\<lambda>q. parseExpression M this input q element)
           mx (chn @ pushed r) (position r) (Suc cnt) = Threw err" by simp
    with a lt show "repetition_loop (Suc (Suc c + j))
          (\<lambda>q. parseExpression M this input q element) mx chn pos cnt = Threw err" by simp
  qed
  then show ?case ..
qed

lemma throws_subcall:
  assumes "subcall this input (pos, e) (p, e')" and "throws this input p e' err"
  shows "throws this input pos e err"
proof -
  from assms(2) obtain k where k: "parseExpression k this input p e' = Threw err"
    by (auto simp: throws_def)
  from assms(1) show ?thesis
  proof (cases rule: subcall.cases)
    case (in_Alternation before after)
    then obtain N where N: "\<forall>b \<in> set before. parseExpression N this input pos b = Returned None"
      using returns_common_budget by blast
    let ?M = "max N k"
    have 1: "\<forall>b \<in> set before. parseExpression ?M this input pos b = Returned None"
      using N by (simp add: parseExpression_Returned_mono[of N _ _ _ _ _ ?M])
    have 2: "parseExpression ?M this input pos e' = Threw err"
      using k in_Alternation by (simp add: parseExpression_Threw_mono[of k _ _ _ _ _ ?M])
    from alternation_loop_Threw[of before "parseExpression ?M this input pos", OF 1 2]
    have "parseExpression (Suc ?M) this input pos e = Threw err"
      using in_Alternation by simp
    then show ?thesis unfolding throws_def by blast
  next
    case (in_Concatenation before after)
    from concatenation_loop_Threw[OF in_Concatenation(2) k] obtain N where
      "concatenation_loop (parseExpression N this input) (before @ e' # after) pos [] = Threw err"
      by blast
    then have "parseExpression (Suc N) this input pos e = Threw err"
      using in_Concatenation by simp
    then show ?thesis unfolding throws_def by blast
  next
    case (in_Repetition c mx mn)
    from in_Repetition(3) have "enat (0 + c) < mx" by simp
    from repetition_loop_Threw[OF in_Repetition(2) k this] obtain N where
      N: "\<forall>M\<ge>N. \<forall>j chn. repetition_loop (Suc (c + j)) (\<lambda>q. parseExpression M this input q e')
           mx chn pos 0 = Threw err" by blast
    let ?M = "Suc (c + N)"
    have "?M = Suc (c + N)" and "N \<le> ?M" by simp_all
    with N have "repetition_loop ?M (\<lambda>q. parseExpression ?M this input q e') mx [] pos 0 = Threw err"
      by blast
    then have "parseExpression (Suc ?M) this input pos e = Threw err"
      using in_Repetition by simp
    then show ?thesis unfolding throws_def by blast
  next
    case in_Optional
    with k have "parseExpression (Suc k) this input pos e = Threw err" by simp
    then show ?thesis unfolding throws_def by blast
  next
    case (in_NonTerminal name)
    with k have "parseExpression (Suc k) this input pos e = Threw err"
      by (simp add: parseRule_body_def)
    then show ?thesis unfolding throws_def by blast
  qed
qed

lemma throws_unknown:
  assumes "map_of (rules this) name = None"
  shows "throws this input pos (NonTerminal name) (UnknownRule name)"
proof -
  from assms have "parseExpression (Suc 0) this input pos (NonTerminal name) = Threw (UnknownRule name)"
    by (simp add: parseRule_body_def)
  then show ?thesis unfolding throws_def by blast
qed

lemma throws_reached:
  assumes "(subcall this input)\<^sup>*\<^sup>* a b" and "throws this input (fst b) (snd b) err"
  shows "throws this input (fst a) (snd a) err"
  using assms
proof (induction rule: converse_rtranclp_induct)
  case base
  then show ?case .
next
  case (step y z)
  then have "throws this input (fst z) (snd z) err" by simp
  with step.hyps(1) show ?case using throws_subcall[of this input "fst y" "snd y" "fst z" "snd z" err]
    by simp
qed

text \<open>
  C10. When a match reaches, through any nesting of alternations (after the
  earlier alternatives failed), concatenations, repetitions of any \<open>min\<close>,
  optionals and rule references, a non-terminal whose name the grammar does not
  define, the whole match throws the unknown-rule error: no enclosing optional,
  repetition or later alternative recovers from it. The same holds for \<^verbatim>\<open>parse\<close> from
  the start rule.
\<close>

theorem unknown_rule_propagates:
  "((subcall this input)\<^sup>*\<^sup>* (pos, expr) (p, NonTerminal name) \<and> map_of (rules this) name = None
      \<longrightarrow> throws this input pos expr (UnknownRule name)) \<and>
   (startRule this = Some start \<and> start \<noteq> [] \<and>
    (subcall this input)\<^sup>*\<^sup>* (0, NonTerminal start) (p', NonTerminal name) \<and>
    map_of (rules this) name = None
      \<longrightarrow> (\<exists>n. parse n this input = Threw (UnknownRule name)))"
proof (intro conjI impI)
  assume a: "(subcall this input)\<^sup>*\<^sup>* (pos, expr) (p, NonTerminal name) \<and>
    map_of (rules this) name = None"
  then have "throws this input p (NonTerminal name) (UnknownRule name)"
    by (simp add: throws_unknown)
  with a throws_reached[of this input "(pos, expr)" "(p, NonTerminal name)" "UnknownRule name"]
  show "throws this input pos expr (UnknownRule name)" by simp
next
  assume a: "startRule this = Some start \<and> start \<noteq> [] \<and>
    (subcall this input)\<^sup>*\<^sup>* (0, NonTerminal start) (p', NonTerminal name) \<and>
    map_of (rules this) name = None"
  then have "throws this input p' (NonTerminal name) (UnknownRule name)"
    by (simp add: throws_unknown)
  with a throws_reached[of this input "(0, NonTerminal start)" "(p', NonTerminal name)" "UnknownRule name"]
  have "throws this input 0 (NonTerminal start) (UnknownRule name)" by simp
  then obtain n where n: "parseExpression n this input 0 (NonTerminal start) = Threw (UnknownRule name)"
    by (auto simp: throws_def)
  then obtain m where "n = Suc m" by (cases n) auto
  with n have "parseRule m this input 0 start = Threw (UnknownRule name)"
    by (simp add: parseRule_def)
  with a have "parse m this input = Threw (UnknownRule name)" by (simp add: parse_def)
  then show "\<exists>n. parse n this input = Threw (UnknownRule name)" ..
qed

text \<open>
  An instance: with \<^verbatim>\<open>s ::= b? | "x"\<close> and input \<^verbatim>\<open>x\<close> the second alternative would
  match, but the optional reference to the undefined \<^verbatim>\<open>b\<close> in the first makes the
  parse throw.
\<close>

theorem unknown_rule_propagates_witness:
  "startRule grammar_unknown_reference = Some (js ''s'') \<and> js ''s'' \<noteq> [] \<and>
   (subcall grammar_unknown_reference (js ''x''))\<^sup>*\<^sup>*
      (0, NonTerminal (js ''s'')) (0, NonTerminal (js ''b'')) \<and>
   map_of (rules grammar_unknown_reference) (js ''b'') = None \<and>
   (\<exists>n. parse n grammar_unknown_reference (js ''x'') = Threw (UnknownRule (js ''b''))) \<and>
   returns grammar_unknown_reference (js ''x'') 0 (Terminal (js ''x''))
     (Some \<lparr>node = Some (Node (js ''terminal'') (js ''x'') 0 1 []), children = None, position = 1\<rparr>)"
proof -
  let ?G = grammar_unknown_reference
  let ?alt = "Alternation [Optional (NonTerminal (js ''b'')), Terminal (js ''x'')]"
  have s: "startRule ?G = Some (js ''s'')" by (simp add: grammar_unknown_reference_def)
  have ne: "js ''s'' \<noteq> []" by (simp add: js_def)
  have u: "map_of (rules ?G) (js ''b'') = None"
    by (simp add: grammar_unknown_reference_def js_def)
  have "map_of (rules ?G) (js ''s'') = Some ?alt" by (simp add: grammar_unknown_reference_def)
  then have 1: "subcall ?G (js ''x'') (0, NonTerminal (js ''s'')) (0, ?alt)"
    by (rule in_NonTerminal)
  have 2: "subcall ?G (js ''x'') (0, ?alt) (0, Optional (NonTerminal (js ''b'')))"
    using in_Alternation[of "[]" ?G "js ''x''" 0 "Optional (NonTerminal (js ''b''))" "[Terminal (js ''x'')]"]
    by simp
  have 3: "subcall ?G (js ''x'') (0, Optional (NonTerminal (js ''b''))) (0, NonTerminal (js ''b''))"
    by (rule in_Optional)
  from 1 2 3 have r: "(subcall ?G (js ''x''))\<^sup>*\<^sup>* (0, NonTerminal (js ''s'')) (0, NonTerminal (js ''b''))"
    by (meson rtranclp.rtrancl_into_rtrancl rtranclp.rtrancl_refl)
  have t: "returns ?G (js ''x'') 0 (Terminal (js ''x''))
     (Some \<lparr>node = Some (Node (js ''terminal'') (js ''x'') 0 1 []), children = None, position = 1\<rparr>)"
    unfolding returns_def by (rule exI[of _ 1]) (simp add: js_def slice_def)
  have "\<exists>n. parse n ?G (js ''x'') = Threw (UnknownRule (js ''b''))"
    using unknown_rule_propagates[of ?G "js ''x''" 0 Empty 0 "js ''b''" "js ''s''" 0] s ne r u
    by blast
  with s ne r u t show ?thesis by blast
qed

section \<open>The grammars of the examples, compiled\<close>

lemma compile_a_x: "EBNFParser (js ''a ::= \"x\"'') = Inr grammar_a_x"
  by code_simp

lemma compile_number_range:
  "EBNFParser (js ''number ::= digit+'' @ [0x0A] @ js ''digit ::= 0-9'') = Inr grammar_number_range"
  by code_simp

lemma compile_unknown_reference:
  "EBNFParser (js ''s ::= b? | \"x\"'') = Inr grammar_unknown_reference"
  by code_simp

lemma compile_hello_hi:
  "parseRuleDefinition (js ''\"hello\" | \"hi\"'') =
     Alternation [Terminal (js ''hello''), Terminal (js ''hi'')]"
  by code_simp

section \<open>Numeric repetition bounds\<close>

text \<open>
  C4, evaluated. For \<^verbatim>\<open>a{2,}\<close> the regular expression captures \<^verbatim>\<open>min = "2"\<close> and
  \<^verbatim>\<open>max = ""\<close>: the comma is matched outside the groups, so the test
  \<^verbatim>\<open>!max.includes(',')\<close> that is meant to tell \<^verbatim>\<open>{n,}\<close> from \<^verbatim>\<open>{n}\<close> always holds, and the
  upper bound is \<^verbatim>\<open>parseInt(min)\<close>, not \<^verbatim>\<open>Infinity\<close>. The forms \<^verbatim>\<open>{n}\<close> and \<^verbatim>\<open>{n,m}\<close>
  give the bounds the claim states.
\<close>

theorem parseElement_open_upper_bound:
  "parseElement (js ''a{2,}'') = Repetition 2 (enat 2) (NonTerminal (js ''a'')) \<and>
   parseElement (js ''a{2}'') = Repetition 2 (enat 2) (NonTerminal (js ''a'')) \<and>
   parseElement (js ''a{2,5}'') = Repetition 2 (enat 5) (NonTerminal (js ''a''))"
  by code_simp

text \<open>
  In a rule definition the numeric form does not reach \<^verbatim>\<open>parseElement\<close> in one
  piece: \<^verbatim>\<open>tokenize\<close> ends the current token at an opening brace.
\<close>

lemma parseRuleDefinition_numeric_repetition:
  "parseRuleDefinition (js ''a{2,}'') =
     Concatenation [NonTerminal (js ''a''), Repetition 0 \<infinity> (Terminal (js ''2,''))]"
  by code_simp

section \<open>Repetition over a bracketed range\<close>

lemma compile_number_bracket:
  "EBNFParser (js ''number ::= digit+'' @ [0x0A] @ js ''digit ::= [0-9]'') = Inr grammar_number_bracket"
  by code_simp

lemma repetition_loop_never_fails:
  assumes "\<And>p. pe p = Timeout \<or> (\<exists>r. pe p = Returned (Some r))"
  shows "repetition_loop k pe \<infinity> chn pos cnt = Timeout"
proof (induction k arbitrary: chn pos cnt)
  case 0
  show ?case by simp
next
  case (Suc k)
  from assms[of pos] show ?case
  proof
    assume "pe pos = Timeout"
    then show ?thesis by simp
  next
    assume "\<exists>r. pe pos = Returned (Some r)"
    then obtain r where "pe pos = Returned (Some r)" ..
    then show ?thesis using Suc.IH by simp
  qed
qed

lemma optional_range_never_fails:
  "parseExpression n this input p (Optional (CharacterRange lo hi)) = Timeout \<or>
   (\<exists>r. parseExpression n this input p (Optional (CharacterRange lo hi)) = Returned (Some r))"
proof (cases n)
  case 0
  then show ?thesis by simp
next
  case (Suc m)
  show ?thesis
  proof (cases m)
    case 0
    with Suc show ?thesis by simp
  next
    case (Suc k)
    have "parseExpression (Suc k) this input p (CharacterRange lo hi) = Returned None \<or>
          (\<exists>r. parseExpression (Suc k) this input p (CharacterRange lo hi) = Returned (Some r))"
      by (simp add: Let_def)
    with Suc \<open>n = Suc m\<close> show ?thesis by auto
  qed
qed

lemma digit_never_fails:
  "parseExpression n grammar_number_bracket input p (NonTerminal (js ''digit'')) = Timeout \<or>
   (\<exists>r. parseExpression n grammar_number_bracket input p (NonTerminal (js ''digit'')) = Returned (Some r))"
proof (cases n)
  case 0
  then show ?thesis by simp
next
  case (Suc m)
  have l: "map_of (rules grammar_number_bracket) (js ''digit'') =
      Some (Optional (CharacterRange (js ''0'') (Some (js ''9''))))"
    by (simp add: grammar_number_bracket_def js_def)
  from optional_range_never_fails[of m grammar_number_bracket input p "js ''0''" "Some (js ''9'')"]
  show ?thesis
  proof
    assume "parseExpression m grammar_number_bracket input p
      (Optional (CharacterRange (js ''0'') (Some (js ''9'')))) = Timeout"
    with Suc l show ?thesis by (simp add: parseRule_body_def)
  next
    assume "\<exists>r. parseExpression m grammar_number_bracket input p
      (Optional (CharacterRange (js ''0'') (Some (js ''9'')))) = Returned (Some r)"
    then obtain r where "parseExpression m grammar_number_bracket input p
      (Optional (CharacterRange (js ''0'') (Some (js ''9'')))) = Returned (Some r)" ..
    with Suc l show ?thesis by (simp add: parseRule_body_def)
  qed
qed

lemma number_bracket_diverges:
  "parse n grammar_number_bracket input = Timeout"
proof -
  have rep: "parseExpression n grammar_number_bracket input 0
      (Repetition 1 \<infinity> (NonTerminal (js ''digit''))) = Timeout"
  proof (cases n)
    case 0
    then show ?thesis by simp
  next
    case (Suc m)
    have "repetition_loop m
        (\<lambda>p. parseExpression m grammar_number_bracket input p (NonTerminal (js ''digit'')))
        \<infinity> [] 0 0 = Timeout"
      by (rule repetition_loop_never_fails) (rule digit_never_fails)
    with Suc show ?thesis by simp
  qed
  have l: "map_of (rules grammar_number_bracket) (js ''number'') =
      Some (Repetition 1 \<infinity> (NonTerminal (js ''digit'')))"
    by (simp add: grammar_number_bracket_def js_def)
  have "parseRule n grammar_number_bracket input 0 (js ''number'') = Timeout"
    using rep l by (simp add: parseRule_def parseRule_body_def)
  moreover have "startRule grammar_number_bracket = Some (js ''number'')" "js ''number'' \<noteq> []"
    by (simp_all add: grammar_number_bracket_def js_def)
  ultimately show ?thesis by (simp add: parse_def)
qed

text \<open>
  C3, as the code has it. \<^verbatim>\<open>digit ::= [0-9]\<close> compiles to an optional character
  range, which never fails; the unbounded repetition \<^verbatim>\<open>digit+\<close> over it takes the three
  digits of \<^verbatim>\<open>123\<close> and then loops on the empty match at offset 3: no budget makes
  \<^verbatim>\<open>parse\<close> return or throw. With the range written in the syntax \<^verbatim>\<open>parseElement\<close> has for
  it, \<^verbatim>\<open>digit ::= 0-9\<close>, the match terminates and yields a node spanning \<open>[0,3)\<close> with
  exactly three children, each spanning one character.
\<close>

theorem digit_plus_on_123:
  "EBNFParser (js ''number ::= digit+'' @ [0x0A] @ js ''digit ::= [0-9]'') = Inr grammar_number_bracket \<and>
   (\<forall>n. parse n grammar_number_bracket (js ''123'') = Timeout) \<and>
   EBNFParser (js ''number ::= digit+'' @ [0x0A] @ js ''digit ::= 0-9'') = Inr grammar_number_range \<and>
   parse 5 grammar_number_range (js ''123'') =
     Returned (Some (Node (js ''number'') (js ''123'') 0 3
       [Node (js ''digit'') (js ''1'') 0 1 [], Node (js ''digit'') (js ''2'') 1 2 [],
        Node (js ''digit'') (js ''3'') 2 3 []]))"
proof (intro conjI allI)
  show "EBNFParser (js ''number ::= digit+'' @ [0x0A] @ js ''digit ::= [0-9]'') = Inr grammar_number_bracket"
    by (rule compile_number_bracket)
  show "parse n grammar_number_bracket (js ''123'') = Timeout" for n
    by (rule number_bracket_diverges)
  show "EBNFParser (js ''number ::= digit+'' @ [0x0A] @ js ''digit ::= 0-9'') = Inr grammar_number_range"
    by (rule compile_number_range)
  show "parse 5 grammar_number_range (js ''123'') =
     Returned (Some (Node (js ''number'') (js ''123'') 0 3
       [Node (js ''digit'') (js ''1'') 0 1 [], Node (js ''digit'') (js ''2'') 1 2 [],
        Node (js ''digit'') (js ''3'') 2 3 []]))"
    by code_simp
qed

text \<open>
  C3 as stated fails: with \<^verbatim>\<open>digit ::= [0-9]\<close> no budget makes the parse of \<^verbatim>\<open>123\<close>
  return a node.
\<close>

theorem digit_plus_bracket_no_result:
  "EBNFParser (js ''number ::= digit+'' @ [0x0A] @ js ''digit ::= [0-9]'') = Inr grammar_number_bracket \<and>
   \<not> (\<exists>n nd. parse n grammar_number_bracket (js ''123'') = Returned nd)"
proof
  show "EBNFParser (js ''number ::= digit+'' @ [0x0A] @ js ''digit ::= [0-9]'') = Inr grammar_number_bracket"
    by (rule compile_number_bracket)
  show "\<not> (\<exists>n nd. parse n grammar_number_bracket (js ''123'') = Returned nd)"
    by (simp add: number_bracket_diverges)
qed

section \<open>Compilation: which texts compile, and the start rule\<close>

lemma ruleMatch_name_nonempty: "ruleMatch line = Some (name, d) \<Longrightarrow> name \<noteq> []"
  by (auto simp: ruleMatch_def split: list.splits if_splits option.splits)

lemma register_rule_None: "ruleMatch line = None \<Longrightarrow> register_rule this line = this"
  by (simp add: register_rule_def)

lemma register_rule_keys:
  assumes "ruleMatch line = Some (name, d)"
  shows "map fst (rules (register_rule this line)) =
     (if name \<in> set (map fst (rules this)) then map fst (rules this)
      else map fst (rules this) @ [name])"
  using assms by (simp add: register_rule_def update_keys)

lemma register_rule_startRule:
  assumes "ruleMatch line = Some (name, d)"
  shows "startRule (register_rule this line) =
     (case startRule this of None \<Rightarrow> Some name | Some s \<Rightarrow> if s = [] then Some name else Some s)"
  using assms by (simp add: register_rule_def)

lemma foldl_register_keys_prefix:
  "\<exists>ks. map fst (rules (foldl register_rule this ls)) = map fst (rules this) @ ks"
proof (induction ls arbitrary: this)
  case Nil
  show ?case by simp
next
  case (Cons l ls)
  from Cons.IH[of "register_rule this l"] obtain ks where
    ks: "map fst (rules (foldl register_rule (register_rule this l) ls)) =
         map fst (rules (register_rule this l)) @ ks" ..
  show ?case
  proof (cases "ruleMatch l")
    case None
    with ks show ?thesis by (simp add: register_rule_None)
  next
    case (Some nd)
    obtain name d where "nd = (name, d)" by (cases nd)
    with Some ks register_rule_keys[of l name d this] show ?thesis by auto
  qed
qed

lemma foldl_register_rules_empty:
  "rules (foldl register_rule this ls) = [] \<longleftrightarrow>
   rules this = [] \<and> (\<forall>l \<in> set ls. ruleMatch l = None)"
proof (induction ls arbitrary: this)
  case Nil
  show ?case by simp
next
  case (Cons l ls)
  show ?case
  proof (cases "ruleMatch l")
    case None
    with Cons.IH[of this] show ?thesis by (simp add: register_rule_None)
  next
    case (Some nd)
    then have "rules (register_rule this l) \<noteq> []"
      by (auto simp: register_rule_def split: prod.splits)
    with Cons.IH[of "register_rule this l"] Some show ?thesis by auto
  qed
qed

lemma foldl_register_startRule_kept:
  assumes "startRule this = Some s" and "s \<noteq> []"
  shows "startRule (foldl register_rule this ls) = Some s"
  using assms
proof (induction ls arbitrary: this)
  case Nil
  then show ?case by simp
next
  case (Cons l ls)
  have "startRule (register_rule this l) = Some s"
  proof (cases "ruleMatch l")
    case None
    with Cons.prems show ?thesis by (simp add: register_rule_None)
  next
    case (Some nd)
    obtain name d where "nd = (name, d)" by (cases nd)
    with Some Cons.prems register_rule_startRule[of l name d this] show ?thesis by simp
  qed
  from Cons.IH[OF this Cons.prems(2)] show ?case by simp
qed

lemma foldl_register_first:
  assumes "startRule this = None" and "rules this = []"
    and "List.map_filter ruleMatch ls = (name, d) # rest"
  shows "startRule (foldl register_rule this ls) = Some name \<and>
         (\<exists>ks. map fst (rules (foldl register_rule this ls)) = name # ks)"
  using assms
proof (induction ls arbitrary: this)
  case Nil
  then show ?case by simp
next
  case (Cons l ls)
  show ?case
  proof (cases "ruleMatch l")
    case None
    with Cons show ?thesis by (simp add: register_rule_None)
  next
    case (Some nd)
    with Cons.prems(3) have m: "ruleMatch l = Some (name, d)" by simp
    from ruleMatch_name_nonempty[OF m] have ne: "name \<noteq> []" .
    from m Cons.prems(1) have s: "startRule (register_rule this l) = Some name"
      by (simp add: register_rule_startRule)
    from m Cons.prems(2) have k: "map fst (rules (register_rule this l)) = [name]"
      by (simp add: register_rule_keys)
    from foldl_register_keys_prefix[of "register_rule this l" ls] k
    have "\<exists>ks. map fst (rules (foldl register_rule (register_rule this l) ls)) = name # ks"
      by auto
    with foldl_register_startRule_kept[OF s ne, of ls] show ?thesis by simp
  qed
qed

lemma map_filter_empty_iff:
  "List.map_filter f xs = [] \<longleftrightarrow> (\<forall>x \<in> set xs. f x = None)"
  by (induction xs) (auto split: option.splits)

text \<open>
  C6. The constructor throws iff no line of the grammar text (comments removed,
  trimmed, empty lines dropped) matches the rule pattern, and then the error is
  \<^verbatim>\<open>No valid grammar rules found\<close>; nothing else makes compilation fail, in
  particular not a reference to a rule that is not defined.
\<close>

theorem compile_error_iff_no_rule:
  "((\<exists>e. EBNFParser str = Inl e) \<longleftrightarrow> (\<forall>line \<in> set (grammar_lines str). ruleMatch line = None)) \<and>
   (\<forall>e. EBNFParser str = Inl e \<longrightarrow> e = NoValidRules)"
proof -
  let ?this = "\<lparr>grammarText = str, rules = [], startRule = None\<rparr>"
  let ?final = "foldl register_rule ?this (grammar_lines str)"
  have e: "EBNFParser str = (if rules ?final = [] then Inl NoValidRules else Inr ?final)"
    by (simp add: EBNFParser_def parseGrammar_def Let_def)
  have "rules ?final = [] \<longleftrightarrow> (\<forall>line \<in> set (grammar_lines str). ruleMatch line = None)"
    by (simp add: foldl_register_rules_empty)
  with e show ?thesis by auto
qed

text \<open>
  Instances: a text of comments only and the empty text do not compile; a rule
  that refers to an undefined rule compiles.
\<close>

theorem compile_error_iff_no_rule_witness:
  "grammar_lines (js ''(* a ::= b *)  // c ::= d'' @ [0x0A] @ js ''# e ::= f'') = [] \<and>
   EBNFParser (js ''(* a ::= b *)  // c ::= d'' @ [0x0A] @ js ''# e ::= f'') = Inl NoValidRules \<and>
   grammar_lines [] = [] \<and>
   EBNFParser [] = Inl NoValidRules \<and>
   EBNFParser (js ''a ::= b'') =
     Inr \<lparr>grammarText = js ''a ::= b'', rules = [(js ''a'', NonTerminal (js ''b''))],
          startRule = Some (js ''a'')\<rparr>"
proof -
  let ?c = "js ''(* a ::= b *)  // c ::= d'' @ [0x0A] @ js ''# e ::= f''"
  have l1: "grammar_lines ?c = []" by code_simp
  have l2: "grammar_lines [] = []" by code_simp
  from l1 have "\<forall>line \<in> set (grammar_lines ?c). ruleMatch line = None" by simp
  with compile_error_iff_no_rule[of ?c] have c1: "EBNFParser ?c = Inl NoValidRules" by blast
  from l2 have "\<forall>line \<in> set (grammar_lines []). ruleMatch line = None" by simp
  with compile_error_iff_no_rule[of "[]"] have c2: "EBNFParser [] = Inl NoValidRules" by blast
  have c3: "EBNFParser (js ''a ::= b'') =
     Inr \<lparr>grammarText = js ''a ::= b'', rules = [(js ''a'', NonTerminal (js ''b''))],
          startRule = Some (js ''a'')\<rparr>" by code_simp
  from l1 c1 l2 c2 c3 show ?thesis by (intro conjI)
qed

text \<open>
  C5. If at least one line of the grammar text (comments removed, trimmed)
  matches the rule pattern \<^verbatim>\<open>identifier operator definition\<close>, the constructor
  returns a parser; its list of rule names \<^verbatim>\<open>Array.from(rules.keys())\<close> is not empty
  and begins with the first name registered, and that name is its \<^verbatim>\<open>startRule\<close>.
\<close>

theorem compile_start_rule_is_first:
  assumes "\<exists>line \<in> set (grammar_lines str). ruleMatch line \<noteq> None"
  shows "\<exists>p name others ks. EBNFParser str = Inr p \<and> registered_names str = name # others \<and>
           startRule p = Some name \<and> map fst (rules p) = name # ks"
proof -
  let ?this = "\<lparr>grammarText = str, rules = [], startRule = None\<rparr>"
  let ?final = "foldl register_rule ?this (grammar_lines str)"
  from assms have "List.map_filter ruleMatch (grammar_lines str) \<noteq> []"
    by (simp add: map_filter_empty_iff)
  then obtain name d rest where
    m: "List.map_filter ruleMatch (grammar_lines str) = (name, d) # rest"
    by (cases "List.map_filter ruleMatch (grammar_lines str)") auto
  have "startRule ?final = Some name \<and> (\<exists>ks. map fst (rules ?final) = name # ks)"
    by (rule foldl_register_first[OF _ _ m]) simp_all
  then obtain ks where s: "startRule ?final = Some name" and k: "map fst (rules ?final) = name # ks"
    by (elim conjE exE)
  from k have "rules ?final \<noteq> []" by auto
  then have 1: "EBNFParser str = Inr ?final"
    by (simp add: EBNFParser_def parseGrammar_def Let_def)
  from m have 2: "registered_names str = name # map fst rest"
    by (simp add: registered_names_def)
  show ?thesis
    by (intro exI conjI) (rule 1, rule 2, rule s, rule k)
qed

theorem compile_start_rule_is_first_witness:
  "ruleMatch (js ''number ::= digit+'') \<noteq> None \<and>
   js ''number ::= digit+'' \<in> set (grammar_lines (js ''number ::= digit+'' @ [0x0A] @ js ''digit ::= 0-9'')) \<and>
   EBNFParser (js ''number ::= digit+'' @ [0x0A] @ js ''digit ::= 0-9'') = Inr grammar_number_range \<and>
   registered_names (js ''number ::= digit+'' @ [0x0A] @ js ''digit ::= 0-9'') = [js ''number'', js ''digit''] \<and>
   startRule grammar_number_range = Some (js ''number'') \<and>
   map fst (rules grammar_number_range) = [js ''number'', js ''digit'']"
proof -
  let ?t = "js ''number ::= digit+'' @ [0x0A] @ js ''digit ::= 0-9''"
  have a: "ruleMatch (js ''number ::= digit+'') \<noteq> None" by code_simp
  have b: "js ''number ::= digit+'' \<in> set (grammar_lines ?t)" by code_simp
  have c: "EBNFParser ?t = Inr grammar_number_range" by (rule compile_number_range)
  have d: "registered_names ?t = [js ''number'', js ''digit'']" by code_simp
  from a b have "\<exists>line \<in> set (grammar_lines ?t). ruleMatch line \<noteq> None" by blast
  from compile_start_rule_is_first[OF this] obtain p name others ks where
    p: "EBNFParser ?t = Inr p" "registered_names ?t = name # others"
       "startRule p = Some name" "map fst (rules p) = name # ks" by (elim conjE exE)
  from p(1) c have "p = grammar_number_range" by simp
  with p d have e: "startRule grammar_number_range = Some (js ''number'')" by simp
  have f: "map fst (rules grammar_number_range) = [js ''number'', js ''digit'']"
    by (simp add: grammar_number_range_def)
  from a b c d e f show ?thesis by (intro conjI)
qed

end
